theory Spec2Isabelle
  imports Complex_Main "HOL-Library.Multiset"
begin

section \<open>Data model (Data.h, Graph.h)\<close>

text \<open>
  An \<open>Airport\<close> carries its IATA code and display attributes; \<open>operator==\<close> compares the
  codes only.  Coordinates and edge distances are \<open>double\<close> in the source; they are only
  stored and read back here, so they are kept as reals.
\<close>

record airport =
  code :: string
  name :: string
  city :: string
  country :: string
  location :: "real \<times> real"

definition airportEq :: "airport \<Rightarrow> airport \<Rightarrow> bool" where
  "airportEq a b \<longleftrightarrow> code a = code b"

record airline =
  alCode :: string
  alName :: string
  callsign :: string
  alCountry :: string

text \<open>
  A \<open>Vertex<Airport>*\<close> is the index of the vertex in \<open>vertexSet\<close>; a nullable pointer
  argument of a query is a \<open>nat option\<close>.  \<open>std::set<Airline>\<close> is ordered and deduplicated
  by airline code; it is kept as a list without two entries of the same code (the iteration
  order is not modelled).
\<close>

record edge =
  dest :: nat
  distance :: real
  airlines :: "airline list"

record vertex =
  info :: airport
  adj :: "edge list"
  visited :: bool
  processing :: bool
  inDegree :: int
  outDegree :: int
  num :: int
  low :: int
  flightsTo :: int
  flightsFrom :: int

type_synonym graph = "vertex list"

datatype error = NullPointer | DanglingPointer | OutOfRange

definition INT_MAX :: nat where
  "INT_MAX = 2147483647"

text \<open>
  The counters of a vertex are C++ \<open>int\<close>s, 32 bits wide.  A sum that leaves the range wraps
  around (two's complement), as the compiled program does; \<open>int32\<close> is that wrap.
\<close>

definition int32 :: "int \<Rightarrow> int" where
  "int32 x = (x + 2147483648) mod 4294967296 - 2147483648"

text \<open>Every edge of a store built by \<open>addEdge\<close> points to a vertex of the same store.\<close>

definition wf_graph :: "graph \<Rightarrow> bool" where
  "wf_graph g \<longleftrightarrow> (\<forall>v \<in> set g. \<forall>e \<in> set (adj v). dest e < length g)"

section \<open>Graph Store (Graph.h)\<close>

fun findVertexFrom :: "vertex list \<Rightarrow> nat \<Rightarrow> airport \<Rightarrow> nat option" where
  "findVertexFrom [] i a = None"
| "findVertexFrom (v # vs) i a =
     (if airportEq (info v) a then Some i else findVertexFrom vs (Suc i) a)"

definition findVertex :: "graph \<Rightarrow> airport \<Rightarrow> nat option" where
  "findVertex g a = findVertexFrom g 0 a"

text \<open>
  The constructor \<open>Vertex(T in)\<close> sets \<open>info\<close>; \<open>adj\<close> is empty and the two flight counters
  have default initialisers.  The remaining fields are left uninitialised: their values
  come from the argument \<open>uninit\<close>.
\<close>

definition newVertex :: "airport \<Rightarrow> vertex \<Rightarrow> vertex" where
  "newVertex a uninit = uninit\<lparr>info := a, adj := [], flightsTo := 0, flightsFrom := 0\<rparr>"

definition addVertex :: "graph \<Rightarrow> airport \<Rightarrow> vertex \<Rightarrow> bool \<times> graph" where
  "addVertex g a uninit =
     (if findVertex g a \<noteq> None then (False, g) else (True, g @ [newVertex a uninit]))"

definition newEdge :: "nat \<Rightarrow> real \<Rightarrow> edge" where
  "newEdge d w = \<lparr>dest = d, distance = w, airlines = []\<rparr>"

definition vertexAddEdge :: "vertex \<Rightarrow> nat \<Rightarrow> real \<Rightarrow> vertex" where
  "vertexAddEdge v d w = v\<lparr>adj := adj v @ [newEdge d w]\<rparr>"

definition addEdge :: "graph \<Rightarrow> airport \<Rightarrow> airport \<Rightarrow> real \<Rightarrow> bool \<times> graph" where
  "addEdge g source dst w =
     (case findVertex g source of
        None \<Rightarrow> (False, g)
      | Some v1 \<Rightarrow>
          (case findVertex g dst of
             None \<Rightarrow> (False, g)
           | Some v2 \<Rightarrow> (True, g[v1 := vertexAddEdge (g ! v1) v2 w])))"

definition addAirline :: "airline \<Rightarrow> edge \<Rightarrow> edge" where
  "addAirline al e =
     e\<lparr>airlines := (if \<exists>x \<in> set (airlines e). alCode x = alCode al
                     then airlines e else airlines e @ [al])\<rparr>"

text \<open>The invariant of the data model: at most one edge per ordered pair of vertices.\<close>

definition noParallelEdges :: "graph \<Rightarrow> bool" where
  "noParallelEdges g \<longleftrightarrow> (\<forall>v \<in> set g. distinct (map dest (adj v)))"

section \<open>Ingestion of one flight record (ParseData::parseFlights)\<close>

definition tempAirport :: "string \<Rightarrow> airport" where
  "tempAirport c = \<lparr>code = c, name = [], city = [], country = [], location = (0, 0)\<rparr>"

definition defaultAirline :: airline where
  "defaultAirline = \<lparr>alCode = [], alName = [], callsign = [], alCountry = []\<rparr>"

fun getAirline :: "airline list \<Rightarrow> string \<Rightarrow> airline" where
  "getAirline [] c = defaultAirline"
| "getAirline (x # xs) c = (if alCode x = c then x else getAirline xs c)"

text \<open>
  The loop \<open>for (auto& e : sourceAirport->getAdj())\<close> that stops at the first edge whose
  destination has the target's code and adds the airline to it; the flag tells whether
  such an edge was met.
\<close>

fun addAirlineToFirst :: "graph \<Rightarrow> airport \<Rightarrow> airline \<Rightarrow> edge list \<Rightarrow> bool \<times> edge list" where
  "addAirlineToFirst g t al [] = (False, [])"
| "addAirlineToFirst g t al (e # es) =
     (if airportEq (info (g ! dest e)) t then (True, addAirline al e # es)
      else (let (found, es') = addAirlineToFirst g t al es in (found, e # es')))"

definition countFlight :: "nat \<Rightarrow> nat \<Rightarrow> graph \<Rightarrow> graph" where
  "countFlight s t g =
     (let g1 = g[s := (g ! s)\<lparr>flightsFrom := int32 (flightsFrom (g ! s) + 1)\<rparr>]
      in g1[t := (g1 ! t)\<lparr>flightsTo := int32 (flightsTo (g1 ! t) + 1)\<rparr>])"

text \<open>
  One line \<open>source,target,airline\<close> of the flights file.  \<open>distanceOf\<close> stands for the
  great-circle distance of two airports.  Both airports are dereferenced without a
  check, so a code that is not in the store is a null-pointer dereference.
\<close>

definition parseFlightLine ::
  "(airport \<Rightarrow> airport \<Rightarrow> real) \<Rightarrow> airline list \<Rightarrow> graph \<Rightarrow> string \<times> string \<times> string
     \<Rightarrow> error + graph" where
  "parseFlightLine distanceOf airlinesInfo g line =
     (case line of (source, target, airlineCode) \<Rightarrow>
      (case findVertex g (tempAirport source) of
         None \<Rightarrow> Inl NullPointer
       | Some s \<Rightarrow>
          (case findVertex g (tempAirport target) of
             None \<Rightarrow> Inl NullPointer
           | Some t \<Rightarrow>
              (let al = getAirline airlinesInfo airlineCode;
                   tInfo = info (g ! t);
                   (found, es) = addAirlineToFirst g tInfo al (adj (g ! s))
               in if found then Inr (countFlight s t (g[s := (g ! s)\<lparr>adj := es\<rparr>]))
                  else
                    (let (ok, g1) = addEdge g (info (g ! s)) tInfo (distanceOf (info (g ! s)) tInfo);
                         (found1, es1) = addAirlineToFirst g1 tInfo al (adj (g1 ! s))
                     in Inr (countFlight s t (g1[s := (g1 ! s)\<lparr>adj := es1\<rparr>])))))))"

section \<open>Queries that do not traverse (Consult.cpp)\<close>

fun firstDistance :: "graph \<Rightarrow> nat option \<Rightarrow> edge list \<Rightarrow> error + real" where
  "firstDistance g target [] = Inr 0"
| "firstDistance g target (e # es) =
     (case target of
        None \<Rightarrow> Inl NullPointer
      | Some t \<Rightarrow>
          if length g \<le> t then Inl DanglingPointer
          else if airportEq (info (g ! dest e)) (info (g ! t)) then Inr (distance e)
          else firstDistance g target es)"

definition getDistanceBetweenAirports :: "graph \<Rightarrow> nat option \<Rightarrow> nat option \<Rightarrow> error + real" where
  "getDistanceBetweenAirports g source target =
     (case source of
        None \<Rightarrow> Inl NullPointer
      | Some s \<Rightarrow>
          if length g \<le> s then Inl DanglingPointer
          else firstDistance g target (adj (g ! s)))"

text \<open>
  \<open>getFlightsFrom() + getFlightsTo()\<close>: a sum of two \<open>int\<close>s, which wraps.
\<close>

definition totalFlights :: "vertex \<Rightarrow> int" where
  "totalFlights v = int32 (flightsFrom v + flightsTo v)"

text \<open>
  The loop of \<open>searchTopKAirportGreatestAirTrafficCapacity\<close> over the sorted vector, with
  the index \<open>i\<close> and \<open>last_totalFlights\<close>; \<open>break\<close> ends it.
\<close>

fun topKLoop :: "int \<Rightarrow> vertex list \<Rightarrow> int \<Rightarrow> int \<Rightarrow> (airport \<times> int) list" where
  "topKLoop k [] i lastTotal = []"
| "topKLoop k (v # vs) i lastTotal =
     (let total = totalFlights v
      in if i < k \<or> total = lastTotal then (info v, total) # topKLoop k vs (i + 1) total
         else [])"

text \<open>
  \<open>std::sort\<close> with the comparator \<open>total(a1) > total(a2)\<close> is library code: it returns a
  rearrangement of the vector in which no airport is followed by one of a greater total,
  and it is not stable, so the order among equal totals is not determined.  The sort is
  therefore a parameter \<open>srt\<close> of the query; \<open>sortOutcome\<close> is what \<open>std::sort\<close> guarantees of
  its result, and \<open>sortByTraffic\<close> is one sort that meets it (the stable one), with which
  the query can be run.
\<close>

definition sortOutcome :: "vertex list \<Rightarrow> vertex list \<Rightarrow> bool" where
  "sortOutcome vs airports \<longleftrightarrow>
     mset airports = mset vs \<and>
     sorted_wrt (\<lambda>a1 a2. \<not> totalFlights a1 < totalFlights a2) airports"

definition sortByTraffic :: "vertex list \<Rightarrow> vertex list" where
  "sortByTraffic vs = sort_key (\<lambda>v. - totalFlights v) vs"

definition searchTopKAirportGreatestAirTrafficCapacity ::
  "(vertex list \<Rightarrow> vertex list) \<Rightarrow> graph \<Rightarrow> int \<Rightarrow> (airport \<times> int) list" where
  "searchTopKAirportGreatestAirTrafficCapacity srt g k = topKLoop k (srt g) 0 0"


section \<open>Traversal state\<close>

text \<open>
  The transient visited flag of a vertex, the reset loop
  \<open>for (auto v : vertexSet) v->setVisited(false)\<close> and the test \<open>!w->isVisited()\<close>.  An
  edge destination is a pointer into \<open>vertexSet\<close>; an index outside the store has no
  counterpart in the program and is never followed.
\<close>

definition setVisited :: "bool \<Rightarrow> vertex \<Rightarrow> vertex" where
  "setVisited b v = v\<lparr>visited := b\<rparr>"

definition resetVisited :: "graph \<Rightarrow> graph" where
  "resetVisited g = map (setVisited False) g"

definition markVisited :: "graph \<Rightarrow> nat \<Rightarrow> graph" where
  "markVisited g i = g[i := setVisited True (g ! i)]"

definition isUnvisited :: "graph \<Rightarrow> nat \<Rightarrow> bool" where
  "isUnvisited g d \<longleftrightarrow> d < length g \<and> \<not> visited (g ! d)"

definition unvisitedCount :: "graph \<Rightarrow> nat" where
  "unvisitedCount g = length (filter (\<lambda>b. \<not> b) (map visited g))"

text \<open>
  The inner loop shared by the breadth-first traversals: every not yet visited
  destination is pushed on the queue (as \<open>mk d\<close>) and marked.
\<close>

fun enqueueUnvisited :: "(nat \<Rightarrow> 'a) \<Rightarrow> edge list \<Rightarrow> 'a list \<times> graph \<Rightarrow> 'a list \<times> graph" where
  "enqueueUnvisited mk [] st = st"
| "enqueueUnvisited mk (e # es) (q, g) =
     (if isUnvisited g (dest e)
      then enqueueUnvisited mk es (q @ [mk (dest e)], markVisited g (dest e))
      else enqueueUnvisited mk es (q, g))"

lemma map_update_same:
  "f x = f (g ! i) \<Longrightarrow> map f (g[i := x]) = map f g"
proof (rule nth_equalityI)
  show "length (map f (g[i := x])) = length (map f g)" by simp
next
  fix k assume "k < length (map f (g[i := x]))"
  then have k: "k < length g" by simp
  assume "f x = f (g ! i)"
  with k show "map f (g[i := x]) ! k = map f g ! k"
    by (cases "k = i") simp_all
qed

lemma unvisitedCount_same:
  "visited x = visited (g ! i) \<Longrightarrow> unvisitedCount (g[i := x]) = unvisitedCount g"
  by (simp add: unvisitedCount_def map_update_same)

lemma unvisitedCount_update_visited:
  "i < length g \<Longrightarrow> \<not> visited (g ! i) \<Longrightarrow> visited x \<Longrightarrow>
   Suc (unvisitedCount (g[i := x])) = unvisitedCount g"
proof (induction g arbitrary: i)
  case Nil
  then show ?case by simp
next
  case (Cons v g)
  then show ?case
    by (cases i) (auto simp: unvisitedCount_def)
qed

lemma unvisitedCount_markVisited:
  "isUnvisited g d \<Longrightarrow> Suc (unvisitedCount (markVisited g d)) = unvisitedCount g"
  unfolding isUnvisited_def markVisited_def
  by (rule unvisitedCount_update_visited) (simp_all add: setVisited_def)

lemma markVisited_noop:
  assumes "\<not> isUnvisited g d"
  shows "markVisited g d = g"
proof (cases "d < length g")
  case True
  with assms have "visited (g ! d)" by (simp add: isUnvisited_def)
  then have "setVisited True (g ! d) = g ! d" by (simp add: setVisited_def)
  then show ?thesis by (simp add: markVisited_def)
next
  case False
  then have "length g \<le> d" by simp
  then show ?thesis by (simp add: markVisited_def list_update_beyond)
qed

lemma unvisitedCount_markVisited_le:
  "unvisitedCount (markVisited g d) \<le> unvisitedCount g"
  using unvisitedCount_markVisited[of g d] markVisited_noop[of g d]
  by (cases "isUnvisited g d") simp_all

lemma enqueueUnvisited_measure:
  "enqueueUnvisited mk es (q, g) = (q', g') \<Longrightarrow>
   unvisitedCount g' + length q' = unvisitedCount g + length q"
proof (induction es arbitrary: q g)
  case Nil
  then show ?case by simp
next
  case (Cons e es)
  show ?case
  proof (cases "isUnvisited g (dest e)")
    case True
    with Cons.prems Cons.IH[of "q @ [mk (dest e)]" "markVisited g (dest e)"]
      unvisitedCount_markVisited[OF True]
    show ?thesis by simp
  next
    case False
    with Cons show ?thesis by simp
  qed
qed

section \<open>Graph::dfs and Graph::bfs from a source payload\<close>

function dfsVisit :: "nat \<Rightarrow> graph \<times> airport list \<Rightarrow> graph \<times> airport list"
  and dfsVisitAdj :: "edge list \<Rightarrow> graph \<times> airport list \<Rightarrow> graph \<times> airport list" where
  "dfsVisit v (g, res) = dfsVisitAdj (adj (g ! v)) (markVisited g v, res @ [info (g ! v)])"
| "dfsVisitAdj [] st = st"
| "dfsVisitAdj (e # es) (g, res) =
     (if isUnvisited g (dest e) then dfsVisitAdj es (dfsVisit (dest e) (g, res))
      else dfsVisitAdj es (g, res))"
  by pat_completeness auto

lemma dfsVisit_unvisited_le:
  "dfsVisit_dfsVisitAdj_dom (Inl (v, st)) \<Longrightarrow>
     unvisitedCount (fst (dfsVisit v st)) \<le> unvisitedCount (markVisited (fst st) v)"
  "dfsVisit_dfsVisitAdj_dom (Inr (es, st)) \<Longrightarrow>
     unvisitedCount (fst (dfsVisitAdj es st)) \<le> unvisitedCount (fst st)"
proof (induction v st and es st rule: dfsVisit_dfsVisitAdj.pinduct)
  case (1 v g res)
  then show ?case by (simp add: dfsVisit.psimps)
next
  case (2 st)
  then show ?case by (simp add: dfsVisitAdj.psimps)
next
  case (3 e es g res)
  show ?case
  proof (cases "isUnvisited g (dest e)")
    case True
    with 3 have "unvisitedCount (fst (dfsVisitAdj es (dfsVisit (dest e) (g, res))))
        \<le> unvisitedCount (markVisited g (dest e))"
      by (metis fst_conv le_trans prod.collapse)
    with True 3(1) show ?thesis
      using unvisitedCount_markVisited_le[of g "dest e"]
      by (simp add: dfsVisitAdj.psimps)
  next
    case False
    with 3 show ?thesis by (simp add: dfsVisitAdj.psimps)
  qed
qed

termination dfsVisit
  apply (relation "inv_image (less_than <*lex*> less_than)
    (\<lambda>x. case x of
       Inl (v, (g, res)) \<Rightarrow> (unvisitedCount (markVisited g v), Suc (length (adj (g ! v))))
     | Inr (es, (g, res)) \<Rightarrow> (unvisitedCount g, length es))")
  subgoal by auto
  subgoal by simp
  subgoal for e es g res
    using unvisitedCount_markVisited[of g "dest e"] by auto
  subgoal for e es g res
    using dfsVisit_unvisited_le(1)[of "dest e" "(g, res)"]
      unvisitedCount_markVisited_le[of g "dest e"]
    by (cases "dfsVisit (dest e) (g, res)") (auto simp: less_Suc_eq_le dest!: le_imp_less_or_eq)
  subgoal by simp
  done

definition dfs :: "graph \<Rightarrow> airport \<Rightarrow> airport list \<times> graph" where
  "dfs g source =
     (case findVertex g source of
        None \<Rightarrow> ([], g)
      | Some s \<Rightarrow> (case dfsVisit s (resetVisited g, []) of (g', res) \<Rightarrow> (res, g')))"

function bfsLoop :: "nat list \<Rightarrow> graph \<Rightarrow> airport list \<Rightarrow> airport list \<times> graph" where
  "bfsLoop [] g res = (res, g)"
| "bfsLoop (v # q) g res =
     (case enqueueUnvisited (\<lambda>w. w) (adj (g ! v)) (q, g) of
        (q', g') \<Rightarrow> bfsLoop q' g' (res @ [info (g ! v)]))"
  by pat_completeness auto
termination
  apply (relation "measure (\<lambda>(q, g, res). unvisitedCount g + length q)")
  subgoal by simp
  subgoal for v q g res q' g'
    using enqueueUnvisited_measure[of "\<lambda>w. w" "adj (g ! v)" q g q' g'] by simp
  done

definition bfs :: "graph \<Rightarrow> airport \<Rightarrow> airport list \<times> graph" where
  "bfs g source =
     (case findVertex g source of
        None \<Rightarrow> ([], g)
      | Some s \<Rightarrow> bfsLoop [s] (markVisited (resetVisited g) s) [])"

section \<open>Bounded-hop reachable destinations (Consult.cpp)\<close>

text \<open>The loop that inserts \<open>attributeExtractor(flight.getDest())\<close> for every flight.\<close>

definition insertDestinations :: "(vertex \<Rightarrow> string) \<Rightarrow> graph \<Rightarrow> edge list \<Rightarrow> string set \<Rightarrow> string set" where
  "insertDestinations ext g es res = fold (\<lambda>e r. insert (ext (g ! dest e)) r) es res"

function reachableLoop ::
  "int \<Rightarrow> (vertex \<Rightarrow> string) \<Rightarrow> (nat \<times> int) list \<Rightarrow> graph \<Rightarrow> string set \<Rightarrow> string set \<times> graph" where
  "reachableLoop layOvers ext [] g res = (res, g)"
| "reachableLoop layOvers ext ((a, stop) # q) g res =
     (let res' = (if stop \<le> layOvers then insertDestinations ext g (adj (g ! a)) res else res)
      in case enqueueUnvisited (\<lambda>d. (d, stop + 1)) (adj (g ! a)) (q, g) of
           (q', g') \<Rightarrow> reachableLoop layOvers ext q' g' res')"
  by pat_completeness auto
termination
  apply (relation "measure (\<lambda>(layOvers, ext, q, g, res). unvisitedCount g + length q)")
  subgoal by simp
  subgoal for layOvers ext a stop q g res res' q' g'
    using enqueueUnvisited_measure[of "\<lambda>d. (d, stop + 1)" "adj (g ! a)" q g q' g'] by simp
  done

definition searchNumberOfReachableDestinationsInXStopsFromAirport ::
  "graph \<Rightarrow> nat option \<Rightarrow> int \<Rightarrow> (vertex \<Rightarrow> string) \<Rightarrow> error + int \<times> graph" where
  "searchNumberOfReachableDestinationsInXStopsFromAirport g airport layOvers attributeExtractor =
     (case airport of
        None \<Rightarrow> Inl NullPointer
      | Some a \<Rightarrow>
          if length g \<le> a then Inl DanglingPointer
          else (case reachableLoop layOvers attributeExtractor [(a, 0)]
                      (markVisited (resetVisited g) a) {} of
                  (res, g') \<Rightarrow> Inr (int (card res), g')))"

definition searchNumberOfReachableAirportsInXStopsFromAirport ::
  "graph \<Rightarrow> nat option \<Rightarrow> int \<Rightarrow> error + int \<times> graph" where
  "searchNumberOfReachableAirportsInXStopsFromAirport g airport layOvers =
     searchNumberOfReachableDestinationsInXStopsFromAirport g airport layOvers (\<lambda>v. code (info v))"

definition searchNumberOfReachableCitiesInXStopsFromAirport ::
  "graph \<Rightarrow> nat option \<Rightarrow> int \<Rightarrow> error + int \<times> graph" where
  "searchNumberOfReachableCitiesInXStopsFromAirport g airport layOvers =
     searchNumberOfReachableDestinationsInXStopsFromAirport g airport layOvers (\<lambda>v. city (info v))"

definition searchNumberOfReachableCountriesInXStopsFromAirport ::
  "graph \<Rightarrow> nat option \<Rightarrow> int \<Rightarrow> error + int \<times> graph" where
  "searchNumberOfReachableCountriesInXStopsFromAirport g airport layOvers =
     searchNumberOfReachableDestinationsInXStopsFromAirport g airport layOvers (\<lambda>v. country (info v))"

section \<open>Shortest paths between two airports (Consult.cpp)\<close>

text \<open>
  The state of the search: the queue of (path, vertex) pairs, the store, \<open>smallestPaths\<close>
  and \<open>smallestSize\<close>.  The scan of one adjacency list appends the target to
  \<open>current.first\<close> in place, so \<open>cur\<close> is threaded through the scan.
\<close>

type_synonym pathState = "(nat list \<times> nat) list \<times> graph \<times> nat list list \<times> nat"

fun scanFlights :: "nat option \<Rightarrow> edge list \<Rightarrow> nat list \<Rightarrow> pathState \<Rightarrow> pathState" where
  "scanFlights target [] cur st = st"
| "scanFlights target (e # es) cur (q, g, sp, ss) =
     (let neighbor = dest e
      in if Some neighbor = target then
           (let cur' = cur @ [neighbor]
            in if length cur' < ss then scanFlights target es cur' (q, g, [cur'], length cur')
               else if length cur' = ss then scanFlights target es cur' (q, g, sp @ [cur'], ss)
               else scanFlights target es cur' (q, g, sp, ss))
         else if isUnvisited g neighbor then
           scanFlights target es cur
             (q @ [(cur @ [neighbor], neighbor)], markVisited g neighbor, sp, ss)
         else scanFlights target es cur (q, g, sp, ss))"

lemma scanFlights_measure:
  "scanFlights target es cur (q, g, sp, ss) = (q', g', sp', ss') \<Longrightarrow>
   unvisitedCount g' + length q' = unvisitedCount g + length q"
proof (induction es arbitrary: cur q g sp ss)
  case Nil
  then show ?case by simp
next
  case (Cons e es)
  show ?case
  proof (cases "Some (dest e) = target")
    case True
    then have "\<exists>sp1 ss1. scanFlights target (e # es) cur (q, g, sp, ss) =
         scanFlights target es (cur @ [dest e]) (q, g, sp1, ss1)"
      by (auto simp: Let_def)
    then obtain sp1 ss1 where
      "scanFlights target (e # es) cur (q, g, sp, ss) =
         scanFlights target es (cur @ [dest e]) (q, g, sp1, ss1)"
      by blast
    with Cons.prems Cons.IH[of "cur @ [dest e]" q g sp1 ss1] show ?thesis by simp
  next
    case False
    show ?thesis
    proof (cases "isUnvisited g (dest e)")
      case True
      with False Cons.prems
        Cons.IH[of cur "q @ [(cur @ [dest e], dest e)]" "markVisited g (dest e)" sp ss]
        unvisitedCount_markVisited[OF True]
      show ?thesis by (simp add: Let_def)
    next
      case u: False
      with False Cons.prems Cons.IH[of cur q g sp ss] show ?thesis
        by (simp add: Let_def)
    qed
  qed
qed

function pathLoop ::
  "nat option \<Rightarrow> (nat list \<times> nat) list \<Rightarrow> graph \<Rightarrow> nat list list \<Rightarrow> nat \<Rightarrow> nat list list \<times> graph" where
  "pathLoop target [] g sp ss = (sp, g)"
| "pathLoop target ((path, v) # q) g sp ss =
     (case scanFlights target (adj (g ! v)) path (q, g, sp, ss) of
        (q', g', sp', ss') \<Rightarrow> pathLoop target q' g' sp' ss')"
  by pat_completeness auto
termination
  apply (relation "measure (\<lambda>(target, q, g, sp, ss). unvisitedCount g + length q)")
  subgoal by simp
  subgoal for target path v q g sp ss
    by (cases "scanFlights target (adj (g ! v)) path (q, g, sp, ss)")
       (auto dest: scanFlights_measure)
  done

definition searchSmallestPathBetweenAirports ::
  "graph \<Rightarrow> nat option \<Rightarrow> nat option \<Rightarrow> error + nat list list \<times> graph" where
  "searchSmallestPathBetweenAirports g source target =
     (case source of
        None \<Rightarrow> Inl NullPointer
      | Some s \<Rightarrow>
          if length g \<le> s then Inl DanglingPointer
          else Inr (pathLoop target [([s], s)] (markVisited (resetVisited g) s) [] INT_MAX))"

section \<open>Essential airports (Consult.cpp)\<close>

type_synonym essentialState = "graph \<times> string list \<times> string set \<times> int"

definition enterVertex :: "int \<Rightarrow> vertex \<Rightarrow> vertex" where
  "enterVertex i v = v\<lparr>visited := True, processing := True, num := i, low := i\<rparr>"

definition setLow :: "int \<Rightarrow> vertex \<Rightarrow> vertex" where
  "setLow l v = v\<lparr>low := l\<rparr>"

definition setProcessing :: "bool \<Rightarrow> vertex \<Rightarrow> vertex" where
  "setProcessing b v = v\<lparr>processing := b\<rparr>"

function dfsEssentialAirports :: "nat \<Rightarrow> essentialState \<Rightarrow> essentialState"
  and essentialFlights :: "nat \<Rightarrow> edge list \<Rightarrow> int \<Rightarrow> essentialState \<Rightarrow> essentialState" where
  "dfsEssentialAirports v (g, s, res, i) =
     (case essentialFlights v (adj (g ! v)) 0
             (g[v := enterVertex i (g ! v)], code (info (g ! v)) # s, res, i + 1) of
        (g', s', res', i') \<Rightarrow> (g'[v := setProcessing False (g' ! v)], tl s', res', i'))"
| "essentialFlights v [] children st = st"
| "essentialFlights v (e # es) children (g, s, res, i) =
     (if isUnvisited g (dest e) then
        (case dfsEssentialAirports (dest e) (g, s, res, i) of
           (g1, s1, res1, i1) \<Rightarrow>
             (let g2 = g1[v := setLow (min (low (g1 ! v)) (low (g1 ! dest e))) (g1 ! v)];
                  res2 = (if (num (g2 ! v) \<noteq> 0 \<and> num (g2 ! v) \<le> low (g2 ! dest e)) \<or>
                             (num (g2 ! v) = 0 \<and> 1 < children + 1)
                          then insert (code (info (g2 ! v))) res1 else res1)
              in essentialFlights v es (children + 1) (g2, s1, res2, i1)))
      else if processing (g ! dest e) then
        essentialFlights v es children
          (g[v := setLow (min (low (g ! v)) (num (g ! dest e))) (g ! v)], s, res, i)
      else essentialFlights v es children (g, s, res, i))"
  by pat_completeness auto

lemma map_visited_enterVertex:
  "map visited (g[v := enterVertex i (g ! v)]) = map visited (markVisited g v)"
proof (rule nth_equalityI)
  show "length (map visited (g[v := enterVertex i (g ! v)])) = length (map visited (markVisited g v))"
    by (simp add: markVisited_def)
next
  fix k assume "k < length (map visited (g[v := enterVertex i (g ! v)]))"
  then have "k < length g" by simp
  then show "map visited (g[v := enterVertex i (g ! v)]) ! k = map visited (markVisited g v) ! k"
    by (cases "k = v") (simp_all add: markVisited_def enterVertex_def setVisited_def)
qed

lemma unvisitedCount_enterVertex:
  "unvisitedCount (g[v := enterVertex i (g ! v)]) = unvisitedCount (markVisited g v)"
  by (simp add: unvisitedCount_def map_visited_enterVertex)

lemma unvisitedCount_setLow:
  "unvisitedCount (g[v := setLow l (g ! v)]) = unvisitedCount g"
  by (rule unvisitedCount_same) (simp add: setLow_def)

lemma unvisitedCount_setProcessing:
  "unvisitedCount (g[v := setProcessing b (g ! v)]) = unvisitedCount g"
  by (rule unvisitedCount_same) (simp add: setProcessing_def)

lemma dfsEssential_unvisited_le:
  "dfsEssentialAirports_essentialFlights_dom (Inl (v, st)) \<Longrightarrow>
     unvisitedCount (fst (dfsEssentialAirports v st)) \<le> unvisitedCount (markVisited (fst st) v)"
  "dfsEssentialAirports_essentialFlights_dom (Inr (v, es, children, st)) \<Longrightarrow>
     unvisitedCount (fst (essentialFlights v es children st)) \<le> unvisitedCount (fst st)"
proof (induction v st and v es children st rule: dfsEssentialAirports_essentialFlights.pinduct)
  case (1 v g s res i)
  then show ?case
    by (auto simp: dfsEssentialAirports.psimps unvisitedCount_enterVertex
        unvisitedCount_setProcessing split: prod.splits)
next
  case (2 v children st)
  then show ?case by (simp add: essentialFlights.psimps)
next
  case (3 v e es children g s res i)
  show ?case
  proof (cases "isUnvisited g (dest e)")
    case True
    obtain g1 s1 res1 i1 where r: "dfsEssentialAirports (dest e) (g, s, res, i) = (g1, s1, res1, i1)"
      by (cases "dfsEssentialAirports (dest e) (g, s, res, i)") auto
    from 3(2)[OF True] r have a: "unvisitedCount g1 \<le> unvisitedCount (markVisited g (dest e))"
      by simp
    let ?g2 = "g1[v := setLow (min (low (g1 ! v)) (low (g1 ! dest e))) (g1 ! v)]"
    let ?res2 = "(if (num (?g2 ! v) \<noteq> 0 \<and> num (?g2 ! v) \<le> low (?g2 ! dest e)) \<or>
                             (num (?g2 ! v) = 0 \<and> 1 < children + 1)
                          then insert (code (info (?g2 ! v))) res1 else res1)"
    from 3(3)[OF True r[symmetric] refl refl refl refl]
    have b: "unvisitedCount (fst (essentialFlights v es (children + 1) (?g2, s1, ?res2, i1)))
        \<le> unvisitedCount g1"
      by (simp add: unvisitedCount_setLow)
    from a b unvisitedCount_markVisited_le[of g "dest e"] True r 3(1) show ?thesis
      by (simp add: essentialFlights.psimps Let_def)
  next
    case False
    with 3 show ?thesis
      by (auto simp: essentialFlights.psimps unvisitedCount_setLow)
  qed
qed

termination dfsEssentialAirports
  apply (relation "inv_image (less_than <*lex*> less_than)
    (\<lambda>x. case x of
       Inl (v, (g, s, res, i)) \<Rightarrow> (unvisitedCount (markVisited g v), Suc (length (adj (g ! v))))
     | Inr (v, es, children, (g, s, res, i)) \<Rightarrow> (unvisitedCount g, length es))")
  subgoal by auto
  subgoal by (simp add: unvisitedCount_enterVertex)
  subgoal for v e es children g
    using unvisitedCount_markVisited[of g "dest e"] by auto
  subgoal for v e es children g s res i
    using dfsEssential_unvisited_le(1)[of "dest e" "(g, s, res, i)"]
      unvisitedCount_markVisited_le[of g "dest e"]
    by (cases "dfsEssentialAirports (dest e) (g, s, res, i)")
       (auto simp: unvisitedCount_setLow less_Suc_eq_le dest!: le_imp_less_or_eq)
  subgoal by (simp add: unvisitedCount_setLow)
  subgoal by simp
  done

text \<open>
  \<open>searchEssentialAirports\<close>: the visited flags are reset, then every vertex of
  \<open>vertexSet\<close> that is still unvisited starts a depth-first pass.
\<close>

fun essentialRoots :: "nat list \<Rightarrow> essentialState \<Rightarrow> essentialState" where
  "essentialRoots [] st = st"
| "essentialRoots (v # vs) (g, s, res, i) =
     (if isUnvisited g v then essentialRoots vs (dfsEssentialAirports v (g, s, res, i))
      else essentialRoots vs (g, s, res, i))"

definition searchEssentialAirports :: "graph \<Rightarrow> string set \<times> graph" where
  "searchEssentialAirports g =
     (case essentialRoots [0..<length g] (resetVisited g, [], {}, 0) of
        (g', s, res, i) \<Rightarrow> (res, g'))"

section \<open>Paths through custom layovers (Utilities.h, Script.cpp)\<close>

definition mergeVectors :: "'a list \<Rightarrow> 'a list \<Rightarrow> 'a list" where
  "mergeVectors first second =
     (if first = [] \<or> second = [] then []
      else if last first = hd second then first @ tl second
      else [])"

text \<open>The nested loops \<open>for a in temp: for b in pathsFromTo: push_back(mergeVectors(a, b))\<close>.\<close>

definition crossMerge :: "'a list list \<Rightarrow> 'a list list \<Rightarrow> 'a list list" where
  "crossMerge temp pathsFromTo =
     concat (map (\<lambda>a. map (\<lambda>b. mergeVectors a b) pathsFromTo) temp)"

text \<open>
  The loop over \<open>i < customLayovers.size() - 1\<close>: the shortest paths between each pair of
  consecutive layovers are merged onto the paths found so far.
\<close>

fun chainLayovers :: "graph \<Rightarrow> nat list \<Rightarrow> nat list list \<Rightarrow> error + nat list list \<times> graph" where
  "chainLayovers g (a # b # rest) temp =
     (case searchSmallestPathBetweenAirports g (Some a) (Some b) of
        Inl err \<Rightarrow> Inl err
      | Inr (pathsFromTo, g') \<Rightarrow> chainLayovers g' (b # rest) (crossMerge temp pathsFromTo))"
| "chainLayovers g ls temp = Inr (temp, g)"

text \<open>
  The candidate paths of one (source, destination) pair.  \<open>customLayovers[0]\<close> of an empty
  vector is an out-of-range access.
\<close>

definition customLayoverPaths ::
  "graph \<Rightarrow> nat list \<Rightarrow> nat \<Rightarrow> nat \<Rightarrow> error + nat list list \<times> graph" where
  "customLayoverPaths g customLayovers sourceAirport destinationAirport =
     (case customLayovers of
        [] \<Rightarrow> Inl OutOfRange
      | l0 # ls \<Rightarrow>
         (case searchSmallestPathBetweenAirports g (Some sourceAirport) (Some l0) of
            Inl err \<Rightarrow> Inl err
          | Inr (temp, g1) \<Rightarrow>
             (case chainLayovers g1 customLayovers temp of
                Inl err \<Rightarrow> Inl err
              | Inr (temp', g2) \<Rightarrow>
                 (case searchSmallestPathBetweenAirports g2 (Some (last customLayovers))
                         (Some destinationAirport) of
                    Inl err \<Rightarrow> Inl err
                  | Inr (temp2, g3) \<Rightarrow> Inr (crossMerge temp' temp2, g3)))))"

text \<open>
  The sum of the leg distances of a path (\<open>while (it != v.end() - 1)\<close>); on an empty vector
  the iterator arithmetic is out of range.  The \<open>double\<close> sum is taken over the reals.
\<close>

fun pathDistance :: "graph \<Rightarrow> nat list \<Rightarrow> error + real" where
  "pathDistance g [] = Inl OutOfRange"
| "pathDistance g [a] = Inr 0"
| "pathDistance g (a # b # rest) =
     (case getDistanceBetweenAirports g (Some a) (Some b) of
        Inl err \<Rightarrow> Inl err
      | Inr d \<Rightarrow> (case pathDistance g (b # rest) of Inl err \<Rightarrow> Inl err | Inr r \<Rightarrow> Inr (d + r)))"

type_synonym bestPath = "airline list \<times> nat list \<times> real"

text \<open>
  The evaluation loop \<open>for (auto v : paths)\<close> with \<open>minLayOvers\<close> and \<open>totalPaths\<close>;
  \<open>int currentLayOvers = v.size() - 2\<close>.
\<close>

fun evaluatePaths :: "graph \<Rightarrow> nat list list \<Rightarrow> int \<times> bestPath list \<Rightarrow> error + int \<times> bestPath list" where
  "evaluatePaths g [] st = Inr st"
| "evaluatePaths g (v # vs) (minLayOvers, totalPaths) =
     (let currentLayOvers = int (length v) - 2;
          (minLayOvers', totalPaths') =
            (if currentLayOvers < minLayOvers then (currentLayOvers, [])
             else (minLayOvers, totalPaths))
      in if currentLayOvers = minLayOvers' then
           (case pathDistance g v of
              Inl err \<Rightarrow> Inl err
            | Inr d \<Rightarrow> evaluatePaths g vs (minLayOvers', totalPaths' @ [([], v, d)]))
         else evaluatePaths g vs (minLayOvers', totalPaths'))"

type_synonym bestState = "graph \<times> int \<times> bestPath list"

fun bestForDestinations :: "nat list \<Rightarrow> nat \<Rightarrow> nat list \<Rightarrow> bestState \<Rightarrow> error + bestState" where
  "bestForDestinations customLayovers sourceAirport [] st = Inr st"
| "bestForDestinations customLayovers sourceAirport (destinationAirport # ds) (g, m, tp) =
     (case customLayoverPaths g customLayovers sourceAirport destinationAirport of
        Inl err \<Rightarrow> Inl err
      | Inr (paths, g') \<Rightarrow>
         (case evaluatePaths g' paths (m, tp) of
            Inl err \<Rightarrow> Inl err
          | Inr (m', tp') \<Rightarrow> bestForDestinations customLayovers sourceAirport ds (g', m', tp')))"

fun bestForSources :: "nat list \<Rightarrow> nat list \<Rightarrow> nat list \<Rightarrow> bestState \<Rightarrow> error + bestState" where
  "bestForSources customLayovers [] destination st = Inr st"
| "bestForSources customLayovers (sourceAirport # ss) destination st =
     (case bestForDestinations customLayovers sourceAirport destination st of
        Inl err \<Rightarrow> Inl err
      | Inr st' \<Rightarrow> bestForSources customLayovers ss destination st')"

definition getBestPathsAllAirlinesWithCustomLayovers ::
  "graph \<Rightarrow> nat list \<Rightarrow> nat list \<Rightarrow> nat list \<Rightarrow> error + bestPath list \<times> graph" where
  "getBestPathsAllAirlinesWithCustomLayovers g customLayovers source destination =
     (case bestForSources customLayovers source destination (g, int INT_MAX, []) of
        Inl err \<Rightarrow> Inl err
      | Inr (g', m, totalPaths) \<Rightarrow> Inr (totalPaths, g'))"

section \<open>Auxiliary notions and example stores\<close>

text \<open>Node identifiers are unique within the store (\<open>addVertex\<close> refuses a second one).\<close>

definition uniqueCodes :: "graph \<Rightarrow> bool" where
  "uniqueCodes g \<longleftrightarrow> distinct (map (code \<circ> info) g)"

text \<open>The pair that \<open>res.emplace_back(airports[i]->getInfo(), totalFlights)\<close> stores.\<close>

definition entry :: "vertex \<Rightarrow> airport \<times> int" where
  "entry v = (info v, totalFlights v)"

definition mkVertex :: "string \<Rightarrow> edge list \<Rightarrow> int \<Rightarrow> int \<Rightarrow> vertex" where
  "mkVertex c es ft ff =
     \<lparr>info = tempAirport c, adj = es, visited = False, processing = False, inDegree = 0,
      outDegree = 0, num = 0, low = 0, flightsTo = ft, flightsFrom = ff\<rparr>"

text \<open>Two airports without routes; five airports with traffic 8, 10, 5, 10, 8.\<close>

definition exAB :: graph where
  "exAB = [mkVertex ''AAA'' [] 0 0, mkVertex ''BBB'' [] 0 0]"

definition exTraffic :: graph where
  "exTraffic = [mkVertex ''A'' [] 4 4, mkVertex ''B'' [] 5 5, mkVertex ''C'' [] 2 3,
                mkVertex ''D'' [] 6 4, mkVertex ''E'' [] 3 5]"

text \<open>A hub with routes to two airports, one of which flies on to the other.\<close>

definition exABC :: graph where
  "exABC = [mkVertex ''AAA'' [newEdge 1 10, newEdge 2 20] 0 0, mkVertex ''BBB'' [newEdge 2 5] 0 0,
            mkVertex ''CCC'' [] 0 0]"

text \<open>Two airports with a route in each direction.\<close>

definition exLoop :: graph where
  "exLoop = [mkVertex ''AAA'' [newEdge 1 10] 0 0, mkVertex ''BBB'' [newEdge 0 10] 0 0]"

text \<open>
  What a query must leave alone: payload, edges, degree and flight counters of a vertex
  (everything but the transient fields \<open>visited\<close>, \<open>processing\<close>, \<open>num\<close>, \<open>low\<close>).
\<close>

definition storeFrame :: "vertex \<Rightarrow> airport \<times> edge list \<times> int \<times> int \<times> int \<times> int" where
  "storeFrame v = (info v, adj v, inDegree v, outDegree v, flightsTo v, flightsFrom v)"

text \<open>
  Hop distance, independently of the queries: \<open>succs\<close> lists the destinations of a vertex,
  \<open>reachedWithin g a k\<close> is the set of vertices reached from \<open>a\<close> by at most \<open>k\<close> edges, and
  \<open>hopDistance\<close> is a breadth-first search by levels that returns the number of the first
  level containing the target (a shortest route never needs more than \<open>|V|\<close> edges).
\<close>

definition succs :: "graph \<Rightarrow> nat \<Rightarrow> nat list" where
  "succs g v = (if v < length g then map dest (adj (g ! v)) else [])"

fun reachedWithin :: "graph \<Rightarrow> nat \<Rightarrow> nat \<Rightarrow> nat set" where
  "reachedWithin g a 0 = {a}"
| "reachedWithin g a (Suc k) = reachedWithin g a k \<union> (\<Union>v \<in> reachedWithin g a k. set (succs g v))"

fun levelSearch :: "graph \<Rightarrow> nat \<Rightarrow> nat set \<Rightarrow> nat \<Rightarrow> nat \<Rightarrow> nat option" where
  "levelSearch g b R d 0 = (if b \<in> R then Some d else None)"
| "levelSearch g b R d (Suc n) =
     (if b \<in> R then Some d
      else levelSearch g b (R \<union> (\<Union>v \<in> R. set (succs g v))) (Suc d) n)"

definition hopDistance :: "graph \<Rightarrow> nat \<Rightarrow> nat \<Rightarrow> nat option" where
  "hopDistance g a b = levelSearch g b {a} 0 (length g)"

text \<open>
  The invariant of the shortest-path search from \<open>a\<close> to \<open>b\<close> over the store \<open>g0\<close>: the
  store is only touched in its transient fields; a queued path starts at \<open>a\<close> and its
  vertex lies within (length - 1) hops; a collected path starts at \<open>a\<close>, ends at \<open>b\<close>,
  has \<open>smallestSize\<close> nodes, and \<open>b\<close> lies within (length - 1) hops.
\<close>

definition collected :: "graph \<Rightarrow> nat \<Rightarrow> nat \<Rightarrow> nat \<Rightarrow> nat list \<Rightarrow> bool" where
  "collected g0 a b ss p \<longleftrightarrow>
     hd p = a \<and> last p = b \<and> 2 \<le> length p \<and> length p = ss \<and>
     b \<in> reachedWithin g0 a (length p - 1)"

definition queued :: "graph \<Rightarrow> nat \<Rightarrow> nat list \<times> nat \<Rightarrow> bool" where
  "queued g0 a x \<longleftrightarrow>
     fst x \<noteq> [] \<and> hd (fst x) = a \<and> snd x < length g0 \<and>
     snd x \<in> reachedWithin g0 a (length (fst x) - 1)"

definition pathInv :: "graph \<Rightarrow> nat \<Rightarrow> nat \<Rightarrow> pathState \<Rightarrow> bool" where
  "pathInv g0 a b st \<longleftrightarrow>
     (case st of (q, g, sp, ss) \<Rightarrow>
        map storeFrame g = map storeFrame g0 \<and>
        (\<forall>x \<in> set q. queued g0 a x) \<and>
        (\<forall>p \<in> set sp. collected g0 a b ss p) \<and>
        ss \<le> INT_MAX \<and> (ss < INT_MAX \<longrightarrow> sp \<noteq> []))"

text \<open>
  A store that is a single directed cycle through all its vertices: \<open>ord\<close> lists the
  vertices in the order of the cycle, and the only edge of each leads to the next one
  (the last one leads back to the first).
\<close>

definition directedCycle :: "graph \<Rightarrow> nat list \<Rightarrow> bool" where
  "directedCycle g ord \<longleftrightarrow>
     3 \<le> length g \<and> length ord = length g \<and> set ord = {..<length g} \<and>
     (\<forall>k < length g. map dest (adj (g ! (ord ! k))) = [ord ! (Suc k mod length g)])"

text \<open>
  The depth-first pass along a cycle: when the pass enters the \<open>k\<close>-th vertex of the
  cycle, the vertices before it are being processed and numbered in order and the others
  are unvisited (\<open>cycState\<close>); when it returns, the earlier vertices are untouched, the
  others are visited, and the low-link of the \<open>k\<close>-th is 0 (\<open>cycDone\<close>).
\<close>

definition cycState :: "graph \<Rightarrow> nat list \<Rightarrow> nat \<Rightarrow> graph \<Rightarrow> bool" where
  "cycState g0 ord k g \<longleftrightarrow>
     map storeFrame g = map storeFrame g0 \<and>
     (\<forall>j < k. visited (g ! (ord ! j)) \<and> processing (g ! (ord ! j)) \<and> num (g ! (ord ! j)) = int j) \<and>
     (\<forall>j. k \<le> j \<and> j < length g0 \<longrightarrow> \<not> visited (g ! (ord ! j)))"

definition cycDone :: "graph \<Rightarrow> nat list \<Rightarrow> nat \<Rightarrow> graph \<Rightarrow> graph \<Rightarrow> bool" where
  "cycDone g0 ord k g g' \<longleftrightarrow>
     map storeFrame g' = map storeFrame g0 \<and>
     (\<forall>j < k. g' ! (ord ! j) = g ! (ord ! j)) \<and>
     (\<forall>j. k \<le> j \<and> j < length g0 \<longrightarrow> visited (g' ! (ord ! j))) \<and>
     low (g' ! (ord ! k)) = 0"

text \<open>Three airports on the cycle B \<rightarrow> A \<rightarrow> C \<rightarrow> B.\<close>

definition exTriangle :: graph where
  "exTriangle = [mkVertex ''AAA'' [newEdge 2 10] 0 0, mkVertex ''BBB'' [newEdge 0 10] 0 0,
                 mkVertex ''CCC'' [newEdge 1 10] 0 0]"

text \<open>
  A path through the stops \<open>stops\<close> (source, layovers, destination): the concatenation of
  one non-empty segment per pair of consecutive stops, each segment leading from its stop
  to the next, joined at the shared endpoints.
\<close>

fun joinSegments :: "'a list list \<Rightarrow> 'a list" where
  "joinSegments [] = []"
| "joinSegments (s # ss) = s @ concat (map tl ss)"

definition chained :: "nat list \<Rightarrow> nat list \<Rightarrow> bool" where
  "chained stops p \<longleftrightarrow>
     (\<exists>segs. length stops = Suc (length segs) \<and>
        (\<forall>i < length segs. segs ! i \<noteq> [] \<and> hd (segs ! i) = stops ! i \<and>
                              last (segs ! i) = stops ! Suc i) \<and>
        p = joinSegments segs) \<and>
     p \<noteq> [] \<and> hd p = hd stops \<and> last p = last stops"

text \<open>
  The invariant of the breadth-first phase of the search (before the target is met):
  a queued vertex is visited and lies exactly at level (length of its path - 1); the
  queue is ordered by level and spans at most two levels; every vertex up to the level
  of the queue head is visited; a visited vertex that has left the queue has only
  visited successors, none of them the target; the target itself is unvisited.
\<close>

definition exactLevel :: "graph \<Rightarrow> nat \<Rightarrow> nat \<Rightarrow> nat \<Rightarrow> bool" where
  "exactLevel g0 a v k \<longleftrightarrow>
     v \<in> reachedWithin g0 a k \<and> (\<forall>j < k. v \<notin> reachedWithin g0 a j)"

definition bfsInv :: "graph \<Rightarrow> nat \<Rightarrow> nat \<Rightarrow> (nat list \<times> nat) list \<Rightarrow> graph \<Rightarrow> bool" where
  "bfsInv g0 a b q g \<longleftrightarrow>
     map storeFrame g = map storeFrame g0 \<and>
     (\<forall>x \<in> set q. fst x \<noteq> [] \<and> hd (fst x) = a \<and> snd x < length g0 \<and> visited (g ! snd x) \<and>
                    exactLevel g0 a (snd x) (length (fst x) - 1)) \<and>
     sorted (map (length \<circ> fst) q) \<and>
     (\<forall>x \<in> set q. length (fst x) \<le> Suc (length (fst (hd q)))) \<and>
     (q \<noteq> [] \<longrightarrow> (\<forall>u \<in> reachedWithin g0 a (length (fst (hd q)) - 1).
                     u < length g0 \<and> visited (g ! u))) \<and>
     (\<forall>u < length g0. visited (g ! u) \<longrightarrow>
        u \<in> snd ` set q \<or>
        (\<forall>w \<in> set (succs g0 u). w \<noteq> b \<and> w < length g0 \<and> visited (g ! w))) \<and>
     (\<forall>u < length g0. visited (g ! u) \<longrightarrow> u \<noteq> b) \<and>
     a < length g0 \<and> visited (g ! a)"

section \<open>Basic facts about the traversal state\<close>

lemma length_resetVisited [simp]: "length (resetVisited g) = length g"
  by (simp add: resetVisited_def)

lemma length_markVisited [simp]: "length (markVisited g i) = length g"
  by (simp add: markVisited_def)

lemma storeFrame_update:
  "storeFrame x = storeFrame (g ! i) \<Longrightarrow> map storeFrame (g[i := x]) = map storeFrame g"
  by (rule map_update_same)

lemma storeFrame_markVisited [simp]: "map storeFrame (markVisited g i) = map storeFrame g"
  unfolding markVisited_def by (rule storeFrame_update) (simp add: storeFrame_def setVisited_def)

lemma storeFrame_resetVisited [simp]: "map storeFrame (resetVisited g) = map storeFrame g"
  by (simp add: resetVisited_def storeFrame_def setVisited_def)

lemma storeFrame_nth:
  "map storeFrame g' = map storeFrame g \<Longrightarrow> k < length g \<Longrightarrow>
   adj (g' ! k) = adj (g ! k) \<and> info (g' ! k) = info (g ! k)"
proof -
  assume a: "map storeFrame g' = map storeFrame g" and k: "k < length g"
  then have "length g' = length g" by (metis length_map)
  with a k have "storeFrame (g' ! k) = storeFrame (g ! k)"
    by (metis nth_map)
  then show ?thesis by (simp add: storeFrame_def)
qed

lemma adj_markVisited [simp]: "adj (markVisited g i ! k) = adj (g ! k)"
  by (cases "i < length g"; cases "k = i")
     (simp_all add: markVisited_def setVisited_def list_update_beyond)

lemma info_markVisited [simp]: "info (markVisited g i ! k) = info (g ! k)"
  by (cases "i < length g"; cases "k = i")
     (simp_all add: markVisited_def setVisited_def list_update_beyond)

lemma adj_resetVisited [simp]: "k < length g \<Longrightarrow> adj (resetVisited g ! k) = adj (g ! k)"
  by (simp add: resetVisited_def setVisited_def)

lemma info_resetVisited [simp]: "k < length g \<Longrightarrow> info (resetVisited g ! k) = info (g ! k)"
  by (simp add: resetVisited_def setVisited_def)

lemma visited_markVisited:
  "k < length g \<Longrightarrow> visited (markVisited g i ! k) \<longleftrightarrow> k = i \<or> visited (g ! k)"
  by (cases "k = i") (simp_all add: markVisited_def setVisited_def)

lemma resetVisited_idem [simp]: "resetVisited (resetVisited g) = resetVisited g"
  by (simp add: resetVisited_def setVisited_def)


lemma enqueueUnvisited_frame:
  "enqueueUnvisited mk es (q, g) = (q', g') \<Longrightarrow> map storeFrame g' = map storeFrame g"
proof (induction es arbitrary: q g)
  case Nil
  then show ?case by simp
next
  case (Cons e es)
  show ?case
  proof (cases "isUnvisited g (dest e)")
    case True
    with Cons.prems Cons.IH[of "q @ [mk (dest e)]" "markVisited g (dest e)"]
    show ?thesis by simp
  next
    case False
    with Cons show ?thesis by simp
  qed
qed

lemma scanFlights_frame:
  "scanFlights target es cur (q, g, sp, ss) = (q', g', sp', ss') \<Longrightarrow>
   map storeFrame g' = map storeFrame g"
proof (induction es arbitrary: cur q g sp ss)
  case Nil
  then show ?case by simp
next
  case (Cons e es)
  show ?case
  proof (cases "Some (dest e) = target")
    case True
    then have "\<exists>sp1 ss1. scanFlights target (e # es) cur (q, g, sp, ss) =
         scanFlights target es (cur @ [dest e]) (q, g, sp1, ss1)"
      by (auto simp: Let_def)
    then obtain sp1 ss1 where
      "scanFlights target (e # es) cur (q, g, sp, ss) =
         scanFlights target es (cur @ [dest e]) (q, g, sp1, ss1)"
      by blast
    with Cons.prems Cons.IH[of "cur @ [dest e]" q g sp1 ss1] show ?thesis by simp
  next
    case False
    show ?thesis
    proof (cases "isUnvisited g (dest e)")
      case True
      with False Cons.prems
        Cons.IH[of cur "q @ [(cur @ [dest e], dest e)]" "markVisited g (dest e)" sp ss]
      show ?thesis by (simp add: Let_def)
    next
      case u: False
      with False Cons.prems Cons.IH[of cur q g sp ss] show ?thesis
        by (simp add: Let_def)
    qed
  qed
qed

lemma pathLoop_frame:
  "map storeFrame (snd (pathLoop target q g sp ss)) = map storeFrame g"
proof (induction target q g sp ss rule: pathLoop.induct)
  case (1 target g sp ss)
  then show ?case by simp
next
  case (2 target path v q g sp ss)
  obtain q' g' sp' ss' where s: "scanFlights target (adj (g ! v)) path (q, g, sp, ss) = (q', g', sp', ss')"
    by (metis prod_cases4)
  from "2.IH"[OF s[symmetric] refl refl] scanFlights_frame[OF s] s show ?case
    by simp
qed

lemma reachableLoop_frame:
  "map storeFrame (snd (reachableLoop x ext q g res)) = map storeFrame g"
proof (induction x ext q g res rule: reachableLoop.induct)
  case (1 layOvers ext g res)
  then show ?case by simp
next
  case (2 layOvers ext a stop q g res)
  obtain q' g' where e: "enqueueUnvisited (\<lambda>d. (d, stop + 1)) (adj (g ! a)) (q, g) = (q', g')"
    by fastforce
  from "2.IH"[OF refl e[symmetric]] enqueueUnvisited_frame[OF e] e show ?case
    by (simp add: Let_def)
qed

lemma storeFrame_enterVertex:
  "map storeFrame (g[v := enterVertex i (g ! v)]) = map storeFrame g"
  by (rule storeFrame_update) (simp add: storeFrame_def enterVertex_def)

lemma storeFrame_setLow:
  "map storeFrame (g[v := setLow l (g ! v)]) = map storeFrame g"
  by (rule storeFrame_update) (simp add: storeFrame_def setLow_def)

lemma storeFrame_setProcessing:
  "map storeFrame (g[v := setProcessing b (g ! v)]) = map storeFrame g"
  by (rule storeFrame_update) (simp add: storeFrame_def setProcessing_def)

lemma dfsEssential_frame:
  "map storeFrame (fst (dfsEssentialAirports v st)) = map storeFrame (fst st)"
  "map storeFrame (fst (essentialFlights v es children st)) = map storeFrame (fst st)"
proof (induction v st and v es children st rule: dfsEssentialAirports_essentialFlights.induct)
  case (1 v g s res i)
  then show ?case
    by (auto simp: storeFrame_enterVertex storeFrame_setProcessing split: prod.splits)
next
  case (2 v children st)
  then show ?case by simp
next
  case (3 v e es children g s res i)
  show ?case
  proof (cases "isUnvisited g (dest e)")
    case True
    obtain g1 s1 res1 i1 where r: "dfsEssentialAirports (dest e) (g, s, res, i) = (g1, s1, res1, i1)"
      by (cases "dfsEssentialAirports (dest e) (g, s, res, i)") auto
    from 3(1)[OF True] r have a: "map storeFrame g1 = map storeFrame g" by simp
    from 3(2)[OF True r[symmetric] refl refl refl refl] a True r show ?thesis
      by (simp add: Let_def storeFrame_setLow)
  next
    case False
    with 3 show ?thesis
      by (auto simp: storeFrame_setLow)
  qed
qed

lemma essentialRoots_frame:
  "map storeFrame (fst (essentialRoots vs st)) = map storeFrame (fst st)"
proof (induction vs st rule: essentialRoots.induct)
  case (1 st)
  then show ?case by simp
next
  case (2 v vs g s res i)
  then show ?case
    using dfsEssential_frame(1)[of v "(g, s, res, i)"]
    by (cases "isUnvisited g v") simp_all
qed

lemma searchEssentialAirports_frame:
  "map storeFrame (snd (searchEssentialAirports g)) = map storeFrame g"
  using essentialRoots_frame[of "[0..<length g]" "(resetVisited g, [], {}, 0)"]
  by (auto simp: searchEssentialAirports_def split: prod.splits)

lemma scanFlights_visited:
  "scanFlights target es cur (q, g, sp, ss) = (q', g', sp', ss') \<Longrightarrow>
   u < length g \<Longrightarrow> visited (g ! u) \<Longrightarrow> visited (g' ! u)"
proof (induction es arbitrary: cur q g sp ss)
  case Nil
  then show ?case by simp
next
  case (Cons e es)
  show ?case
  proof (cases "Some (dest e) = target")
    case True
    then have "\<exists>sp1 ss1. scanFlights target (e # es) cur (q, g, sp, ss) =
         scanFlights target es (cur @ [dest e]) (q, g, sp1, ss1)"
      by (auto simp: Let_def)
    then obtain sp1 ss1 where
      "scanFlights target (e # es) cur (q, g, sp, ss) =
         scanFlights target es (cur @ [dest e]) (q, g, sp1, ss1)"
      by blast
    with Cons.prems Cons.IH[of "cur @ [dest e]" q g sp1 ss1] show ?thesis by simp
  next
    case False
    show ?thesis
    proof (cases "isUnvisited g (dest e)")
      case True
      with False Cons.prems
        Cons.IH[of cur "q @ [(cur @ [dest e], dest e)]" "markVisited g (dest e)" sp ss]
      show ?thesis by (simp add: Let_def visited_markVisited)
    next
      case u: False
      with False Cons.prems Cons.IH[of cur q g sp ss] show ?thesis
        by (simp add: Let_def)
    qed
  qed
qed

lemma pathLoop_visited:
  "u < length g \<Longrightarrow> visited (g ! u) \<Longrightarrow> visited (snd (pathLoop target q g sp ss) ! u)"
proof (induction target q g sp ss rule: pathLoop.induct)
  case (1 target g sp ss)
  then show ?case by simp
next
  case (2 target path v q g sp ss)
  obtain q' g' sp' ss' where s: "scanFlights target (adj (g ! v)) path (q, g, sp, ss) = (q', g', sp', ss')"
    by (metis prod_cases4)
  have l: "length g' = length g"
    using scanFlights_frame[OF s] by (metis length_map)
  from "2.IH"[OF s[symmetric] refl refl] scanFlights_visited[OF s "2.prems"] "2.prems"(1) l s
  show ?case by simp
qed

section \<open>The invariant of the shortest-path search\<close>

lemma succs_frame:
  "map storeFrame g' = map storeFrame g \<Longrightarrow> succs g' = succs g"
proof
  fix v
  assume a: "map storeFrame g' = map storeFrame g"
  then have l: "length g' = length g" by (metis length_map)
  show "succs g' v = succs g v"
    using storeFrame_nth[OF a, of v] l by (simp add: succs_def)
qed

lemma reachedWithin_mono_Suc: "reachedWithin g a k \<subseteq> reachedWithin g a (Suc k)"
  by auto

lemma reachedWithin_mono: "j \<le> k \<Longrightarrow> reachedWithin g a j \<subseteq> reachedWithin g a k"
  by (induction k) (auto simp: le_Suc_eq)

lemma reachedWithin_step:
  "v \<in> reachedWithin g a k \<Longrightarrow> w \<in> set (succs g v) \<Longrightarrow> w \<in> reachedWithin g a (Suc k)"
  by auto

lemma pathInv_scan:
  assumes "pathInv g0 a b (q, g, sp, ss)"
    and "cur \<noteq> []" "hd cur = a" "v < length g0" "v \<in> reachedWithin g0 a (length cur - 1)"
    and "set es \<subseteq> set (adj (g0 ! v))"
  shows "pathInv g0 a b (scanFlights (Some b) es cur (q, g, sp, ss))"
  using assms
proof (induction es arbitrary: cur q g sp ss)
  case Nil
  then show ?case by simp
next
  case (Cons e es)
  from Cons.prems have e: "dest e \<in> set (succs g0 v)" and es: "set es \<subseteq> set (adj (g0 ! v))"
    by (auto simp: succs_def)
  from Cons.prems(2,5) e have w: "dest e \<in> reachedWithin g0 a (length cur)"
    using reachedWithin_step[of v g0 a "length cur - 1" "dest e"] by (cases cur) auto
  from Cons.prems(1) have fr: "map storeFrame g = map storeFrame g0"
    by (simp add: pathInv_def)
  then have lg: "length g = length g0" by (metis length_map)
  show ?case
  proof (cases "dest e = b")
    case True
    let ?cur = "cur @ [b]"
    have c: "?cur \<noteq> []" "hd ?cur = a" "v \<in> reachedWithin g0 a (length ?cur - 1)"
      using Cons.prems(2,3,5) reachedWithin_mono[of "length cur - 1" "length cur" g0 a]
      by auto
    have new: "collected g0 a b (length ?cur) ?cur"
      using Cons.prems(2,3) w True unfolding collected_def by (cases cur) auto
    have small: "length ?cur < ss \<Longrightarrow> length ?cur < INT_MAX"
      using Cons.prems(1) by (simp add: pathInv_def)
    consider (less) "length ?cur < ss" | (eq) "length ?cur = ss" | (greater) "ss < length ?cur"
      by linarith
    then show ?thesis
    proof cases
      case less
      have "pathInv g0 a b (q, g, [?cur], length ?cur)"
        using Cons.prems(1) new small[OF less] unfolding pathInv_def by simp
      from Cons.IH[OF this c(1,2) Cons.prems(4) c(3) es] True less show ?thesis
        by (simp add: Let_def)
    next
      case eq
      with new have "collected g0 a b ss ?cur" by simp
      with Cons.prems(1) have "pathInv g0 a b (q, g, sp @ [?cur], ss)"
        unfolding pathInv_def by simp
      from Cons.IH[OF this c(1,2) Cons.prems(4) c(3) es] True eq show ?thesis
        by (simp add: Let_def)
    next
      case greater
      from Cons.IH[OF Cons.prems(1) c(1,2) Cons.prems(4) c(3) es] True greater show ?thesis
        by (simp add: Let_def)
    qed
  next
    case False
    show ?thesis
    proof (cases "isUnvisited g (dest e)")
      case True
      have "queued g0 a (cur @ [dest e], dest e)"
        using Cons.prems(2,3) w True lg unfolding queued_def isUnvisited_def
        by (cases cur) auto
      with Cons.prems(1)
      have "pathInv g0 a b (q @ [(cur @ [dest e], dest e)], markVisited g (dest e), sp, ss)"
        unfolding pathInv_def by simp
      from Cons.IH[OF this Cons.prems(2,3,4,5) es] False True show ?thesis
        by (simp add: Let_def)
    next
      case u: False
      from Cons.IH[OF Cons.prems(1,2,3,4,5) es] False u show ?thesis
        by (simp add: Let_def)
    qed
  qed
qed

lemma pathInv_loop:
  "pathInv g0 a b (q, g, sp, ss) \<Longrightarrow>
   \<exists>ssf. pathInv g0 a b ([], snd (pathLoop (Some b) q g sp ss), fst (pathLoop (Some b) q g sp ss), ssf)"
proof (induction "Some b" q g sp ss rule: pathLoop.induct)
  case (1 g sp ss)
  then show ?case by (auto simp: pathInv_def)
next
  case (2 path v q g sp ss)
  obtain q' g' sp' ss' where
    s: "scanFlights (Some b) (adj (g ! v)) path (q, g, sp, ss) = (q', g', sp', ss')"
    by (metis prod_cases4)
  from "2.prems" have p: "path \<noteq> []" "hd path = a" "v < length g0" "v \<in> reachedWithin g0 a (length path - 1)"
    and fr: "map storeFrame g = map storeFrame g0"
    by (auto simp: pathInv_def queued_def)
  have adj: "adj (g ! v) = adj (g0 ! v)"
    using storeFrame_nth[OF fr p(3)] by simp
  have "pathInv g0 a b (q, g, sp, ss)"
    using "2.prems" by (auto simp: pathInv_def)
  from pathInv_scan[OF this p, of "adj (g ! v)"] adj s
  have "pathInv g0 a b (q', g', sp', ss')" by simp
  from "2.hyps"[OF s[symmetric] refl refl this] s show ?case
    by simp
qed

lemma pathInv_init:
  "s < length g \<Longrightarrow> pathInv g s b ([([s], s)], markVisited (resetVisited g) s, [], INT_MAX)"
  by (simp add: pathInv_def queued_def)

lemma searchSmallestPath_shape:
  assumes "s < length g"
  shows "\<exists>ps g'. searchSmallestPathBetweenAirports g (Some s) (Some b) = Inr (ps, g') \<and>
           (\<forall>p \<in> set ps. hd p = s \<and> last p = b \<and> 2 \<le> length p \<and>
                          b \<in> reachedWithin g s (length p - 1))"
proof -
  let ?r = "pathLoop (Some b) [([s], s)] (markVisited (resetVisited g) s) [] INT_MAX"
  from pathInv_loop[OF pathInv_init[OF assms, of b]]
  obtain ssf where "pathInv g s b ([], snd ?r, fst ?r, ssf)" by blast
  then have "\<forall>p \<in> set (fst ?r). hd p = s \<and> last p = b \<and> 2 \<le> length p \<and>
                          b \<in> reachedWithin g s (length p - 1)"
    by (auto simp: pathInv_def collected_def)
  moreover have "searchSmallestPathBetweenAirports g (Some s) (Some b) = Inr (fst ?r, snd ?r)"
    using assms by (simp add: searchSmallestPathBetweenAirports_def)
  ultimately show ?thesis by blast
qed

lemma scanFlights_queue_valid:
  "scanFlights target es cur (q, g, sp, ss) = (q', g', sp', ss') \<Longrightarrow>
   \<forall>(p, v) \<in> set q. v < length g \<Longrightarrow> \<forall>(p, v) \<in> set q'. v < length g"
proof (induction es arbitrary: cur q g sp ss)
  case Nil
  then show ?case by simp
next
  case (Cons e es)
  show ?case
  proof (cases "Some (dest e) = target")
    case True
    then have "\<exists>sp1 ss1. scanFlights target (e # es) cur (q, g, sp, ss) =
         scanFlights target es (cur @ [dest e]) (q, g, sp1, ss1)"
      by (auto simp: Let_def)
    then obtain sp1 ss1 where
      "scanFlights target (e # es) cur (q, g, sp, ss) =
         scanFlights target es (cur @ [dest e]) (q, g, sp1, ss1)"
      by blast
    with Cons.prems Cons.IH[of "cur @ [dest e]" q g sp1 ss1] show ?thesis by simp
  next
    case False
    show ?thesis
    proof (cases "isUnvisited g (dest e)")
      case True
      with False Cons.prems
        Cons.IH[of cur "q @ [(cur @ [dest e], dest e)]" "markVisited g (dest e)" sp ss]
      show ?thesis by (simp add: Let_def isUnvisited_def)
    next
      case u: False
      with False Cons.prems Cons.IH[of cur q g sp ss] show ?thesis
        by (simp add: Let_def)
    qed
  qed
qed

lemma scanFlights_noTarget_sp:
  "b \<notin> dest ` set es \<Longrightarrow> scanFlights (Some b) es cur (q, g, sp, ss) = (q', g', sp', ss') \<Longrightarrow>
   sp' = sp \<and> ss' = ss"
proof (induction es arbitrary: q g)
  case Nil
  then show ?case by simp
next
  case (Cons e es)
  then show ?case
    by (cases "isUnvisited g (dest e)") (auto simp: Let_def)
qed

lemma pathLoop_noTarget:
  "\<forall>v < length g0. b \<notin> set (succs g0 v) \<Longrightarrow> map storeFrame g = map storeFrame g0 \<Longrightarrow>
   \<forall>(p, v) \<in> set q. v < length g0 \<Longrightarrow>
   fst (pathLoop (Some b) q g sp ss) = sp"
proof (induction "Some b" q g sp ss rule: pathLoop.induct)
  case (1 g sp ss)
  then show ?case by simp
next
  case (2 path v q g sp ss)
  obtain q' g' sp' ss' where
    s: "scanFlights (Some b) (adj (g ! v)) path (q, g, sp, ss) = (q', g', sp', ss')"
    by (metis prod_cases4)
  from "2.prems" have v: "v < length g0" by simp
  have adj: "adj (g ! v) = adj (g0 ! v)"
    using storeFrame_nth[OF "2.prems"(2) v] by simp
  with "2.prems"(1) v have nb: "b \<notin> dest ` set (adj (g ! v))"
    by (auto simp: succs_def)
  from scanFlights_noTarget_sp[OF nb s] have eq: "sp' = sp" "ss' = ss" by simp_all
  have fr: "map storeFrame g' = map storeFrame g0"
    using scanFlights_frame[OF s] "2.prems"(2) by simp
  have lg: "length g = length g0" using "2.prems"(2) by (metis length_map)
  have q': "\<forall>(p, v) \<in> set q'. v < length g0"
    using scanFlights_queue_valid[OF s] "2.prems"(3) lg by simp
  from "2.hyps"[OF s[symmetric] refl refl "2.prems"(1) fr q'] s eq show ?case
    by simp
qed

lemma scanFlights_nodes:
  "scanFlights (Some b) es cur (q, g, sp, ss) = (q', g', sp', ss') \<Longrightarrow>
   b < length g \<Longrightarrow> set cur \<subseteq> {..<N} \<Longrightarrow> length g = N \<Longrightarrow>
   \<forall>x \<in> set q. set (fst x) \<subseteq> {..<N} \<Longrightarrow> \<forall>p \<in> set sp. set p \<subseteq> {..<N} \<Longrightarrow>
   (\<forall>x \<in> set q'. set (fst x) \<subseteq> {..<N}) \<and> (\<forall>p \<in> set sp'. set p \<subseteq> {..<N})"
proof (induction es arbitrary: cur q g sp ss)
  case Nil
  then show ?case by simp
next
  case (Cons e es)
  show ?case
  proof (cases "dest e = b")
    case True
    let ?cur = "cur @ [b]"
    have c: "set ?cur \<subseteq> {..<N}" using Cons.prems by simp
    from True have "\<exists>sp1 ss1. scanFlights (Some b) (e # es) cur (q, g, sp, ss) =
         scanFlights (Some b) es ?cur (q, g, sp1, ss1) \<and> set sp1 \<subseteq> insert ?cur (set sp)"
      by (auto simp: Let_def)
    then obtain sp1 ss1 where
      eq: "scanFlights (Some b) (e # es) cur (q, g, sp, ss) =
         scanFlights (Some b) es ?cur (q, g, sp1, ss1)" and sub: "set sp1 \<subseteq> insert ?cur (set sp)"
      by blast
    from sub c Cons.prems(6) have "\<forall>p \<in> set sp1. set p \<subseteq> {..<N}" by blast
    from Cons.IH[of ?cur q g sp1 ss1, OF _ Cons.prems(2) c Cons.prems(4,5) this] eq Cons.prems(1)
    show ?thesis by simp
  next
    case False
    show ?thesis
    proof (cases "isUnvisited g (dest e)")
      case True
      then have "dest e < N" using Cons.prems(4) by (simp add: isUnvisited_def)
      with Cons.prems have q1: "\<forall>x \<in> set (q @ [(cur @ [dest e], dest e)]). set (fst x) \<subseteq> {..<N}"
        by simp
      from Cons.IH[of cur "q @ [(cur @ [dest e], dest e)]" "markVisited g (dest e)" sp ss,
          OF _ _ Cons.prems(3) _ q1 Cons.prems(6)] False True Cons.prems(1,2,4)
      show ?thesis by (simp add: Let_def)
    next
      case u: False
      from Cons.IH[of cur q g sp ss, OF _ Cons.prems(2,3,4,5,6)] False u Cons.prems(1)
      show ?thesis by (simp add: Let_def)
    qed
  qed
qed

lemma pathLoop_nodes:
  "b < length g \<Longrightarrow> length g = N \<Longrightarrow>
   \<forall>x \<in> set q. set (fst x) \<subseteq> {..<N} \<and> snd x < N \<Longrightarrow> \<forall>p \<in> set sp. set p \<subseteq> {..<N} \<Longrightarrow>
   \<forall>p \<in> set (fst (pathLoop (Some b) q g sp ss)). set p \<subseteq> {..<N}"
proof (induction "Some b" q g sp ss rule: pathLoop.induct)
  case (1 g sp ss)
  then show ?case by simp
next
  case (2 path v q g sp ss)
  obtain q' g' sp' ss' where
    s: "scanFlights (Some b) (adj (g ! v)) path (q, g, sp, ss) = (q', g', sp', ss')"
    by (metis prod_cases4)
  have lg: "length g' = N"
    using scanFlights_frame[OF s] "2.prems"(2) by (metis length_map)
  from "2.prems"(3) have p: "set path \<subseteq> {..<N}" and q: "\<forall>x \<in> set q. set (fst x) \<subseteq> {..<N}"
    and qv: "\<forall>(p, v) \<in> set q. v < length g"
    using "2.prems"(2) by auto
  from scanFlights_nodes[OF s "2.prems"(1) p "2.prems"(2) q "2.prems"(4)]
  have n: "\<forall>x \<in> set q'. set (fst x) \<subseteq> {..<N}" "\<forall>p \<in> set sp'. set p \<subseteq> {..<N}"
    by simp_all
  from scanFlights_queue_valid[OF s qv] "2.prems"(2)
  have "\<forall>x \<in> set q'. snd x < N" by auto
  with n have q': "\<forall>x \<in> set q'. set (fst x) \<subseteq> {..<N} \<and> snd x < N" by simp
  from "2.hyps"[OF s[symmetric] refl refl _ lg q' n(2)] "2.prems"(1,2) lg s show ?case
    by simp
qed

lemma searchSmallestPath_ok:
  assumes "s < length g" "t < length g"
  shows "\<exists>ps g'. searchSmallestPathBetweenAirports g (Some s) (Some t) = Inr (ps, g') \<and>
           map storeFrame g' = map storeFrame g \<and>
           (\<forall>p \<in> set ps. p \<noteq> [] \<and> hd p = s \<and> last p = t \<and> set p \<subseteq> {..<length g})"
proof -
  let ?g1 = "markVisited (resetVisited g) s"
  let ?r = "pathLoop (Some t) [([s], s)] ?g1 [] INT_MAX"
  have r: "searchSmallestPathBetweenAirports g (Some s) (Some t) = Inr (fst ?r, snd ?r)"
    using assms by (simp add: searchSmallestPathBetweenAirports_def)
  from searchSmallestPath_shape[OF assms(1), of t] r
  have shape: "\<forall>p \<in> set (fst ?r). hd p = s \<and> last p = t \<and> 2 \<le> length p"
    by auto
  have nodes: "\<forall>p \<in> set (fst ?r). set p \<subseteq> {..<length g}"
    using assms by (intro pathLoop_nodes) simp_all
  have fr: "map storeFrame (snd ?r) = map storeFrame g"
    by (rule trans[OF pathLoop_frame]) simp
  from shape have "\<forall>p \<in> set (fst ?r). p \<noteq> []" by auto
  with r shape nodes fr show ?thesis by blast
qed


section \<open>Depth-first pass along a directed cycle\<close>

lemma cycle_ord_lt:
  "directedCycle g0 ord \<Longrightarrow> j < length g0 \<Longrightarrow> ord ! j < length g0"
  unfolding directedCycle_def by (metis lessThan_iff nth_mem)

lemma cycle_ord_inj:
  assumes "directedCycle g0 ord" "i < length g0" "j < length g0" "ord ! i = ord ! j"
  shows "i = j"
proof -
  from assms(1) have "card (set ord) = length ord"
    by (simp add: directedCycle_def)
  then have "distinct ord" by (rule card_distinct)
  with assms show ?thesis
    by (simp add: directedCycle_def nth_eq_iff_index_eq)
qed

lemma cycle_edge:
  assumes "directedCycle g0 ord" "map storeFrame g = map storeFrame g0" "k < length g0"
  shows "\<exists>e. adj (g ! (ord ! k)) = [e] \<and> dest e = ord ! (Suc k mod length g0)"
proof -
  have "adj (g ! (ord ! k)) = adj (g0 ! (ord ! k))"
    using storeFrame_nth[OF assms(2) cycle_ord_lt[OF assms(1,3)]] by simp
  moreover from assms(1,3) have "map dest (adj (g0 ! (ord ! k))) = [ord ! (Suc k mod length g0)]"
    by (simp add: directedCycle_def)
  ultimately show ?thesis by (cases "adj (g ! (ord ! k))") auto
qed

lemma cycle_descend_aux:
  assumes cyc: "directedCycle g0 ord"
  shows "length g0 - k = m \<Longrightarrow> 0 < k \<Longrightarrow> k < length g0 \<Longrightarrow> cycState g0 ord k g \<Longrightarrow>
         \<exists>g'. dfsEssentialAirports (ord ! k) (g, s, res, int k) = (g', s, res, int (length g0)) \<and>
              cycDone g0 ord k g g'"
proof (induction m arbitrary: k g s)
  case 0
  then show ?case by simp
next
  case (Suc m)
  let ?n = "length g0"
  let ?v = "ord ! k"
  let ?d = "ord ! (Suc k mod ?n)"
  note k = \<open>0 < k\<close> \<open>k < ?n\<close>
  note st = \<open>cycState g0 ord k g\<close>
  from st have fr: "map storeFrame g = map storeFrame g0" by (simp add: cycState_def)
  then have lg: "length g = ?n" by (metis length_map)
  have v: "?v < ?n" by (rule cycle_ord_lt[OF cyc k(2)])
  have n0: "0 < ?n" using k(2) by (cases g0) simp_all
  have d: "?d < ?n" by (rule cycle_ord_lt[OF cyc mod_less_divisor[OF n0]])
  obtain e where e: "adj (g ! ?v) = [e]" "dest e = ?d"
    using cycle_edge[OF cyc fr k(2)] by blast
  let ?g1 = "g[?v := enterVertex (int k) (g ! ?v)]"
  let ?c = "code (info (g ! ?v))"
  have unfold: "dfsEssentialAirports ?v (g, s, res, int k) =
      (case essentialFlights ?v [e] 0 (?g1, ?c # s, res, int k + 1) of
         (g', s', res', i') \<Rightarrow> (g'[?v := setProcessing False (g' ! ?v)], tl s', res', i'))"
    by (subst dfsEssentialAirports.simps) (simp only: e)
  have fr1: "map storeFrame ?g1 = map storeFrame g0"
    using fr by (simp add: storeFrame_enterVertex)
  have g1v: "?g1 ! ?v = enterVertex (int k) (g ! ?v)" using v lg by simp
  have g1o: "\<And>j. j < ?n \<Longrightarrow> j \<noteq> k \<Longrightarrow> ?g1 ! (ord ! j) = g ! (ord ! j)"
    using cycle_ord_inj[OF cyc _ k(2)] by (metis nth_list_update_neq)
  show ?case
  proof (cases "Suc k = ?n")
    case True
    have d0: "?d = ord ! 0" using True by simp
    have "0 \<noteq> k" using k by simp
    from g1o[OF n0 this] have g1d: "?g1 ! ?d = g ! (ord ! 0)"
      using d0 by simp
    from st k have vis0: "visited (g ! (ord ! 0))" "processing (g ! (ord ! 0))" "num (g ! (ord ! 0)) = 0"
      by (auto simp: cycState_def)
    have nu: "\<not> isUnvisited ?g1 (dest e)"
      using vis0 g1d e by (simp add: isUnvisited_def)
    have pr: "processing (?g1 ! dest e)"
      using vis0 g1d e by simp
    let ?g2 = "?g1[?v := setLow 0 (?g1 ! ?v)]"
    have lowv: "min (low (?g1 ! ?v)) (num (?g1 ! dest e)) = 0"
      using g1v g1d e vis0 by (simp add: enterVertex_def)
    have fl: "essentialFlights ?v [e] 0 (?g1, ?c # s, res, int k + 1) = (?g2, ?c # s, res, int k + 1)"
      using nu pr lowv by (simp del: dfsEssentialAirports.simps)
    let ?g' = "?g2[?v := setProcessing False (?g2 ! ?v)]"
    have res: "dfsEssentialAirports ?v (g, s, res, int k) = (?g', s, res, int ?n)"
      using True unfolding unfold fl by simp
    have "cycDone g0 ord k g ?g'"
      unfolding cycDone_def
    proof (intro conjI allI impI)
      show "map storeFrame ?g' = map storeFrame g0"
        using storeFrame_setProcessing[of ?g2 ?v False] storeFrame_setLow[of ?g1 ?v 0] fr1
        by (simp only:)
    next
      fix j assume "j < k"
      then have "ord ! j \<noteq> ?v" using cycle_ord_inj[OF cyc _ k(2), of j] k by auto
      then show "?g' ! (ord ! j) = g ! (ord ! j)" by simp
    next
      fix j assume "k \<le> j \<and> j < ?n"
      with True have "j = k" by simp
      then show "visited (?g' ! (ord ! j))"
        using v lg by (simp add: setProcessing_def setLow_def enterVertex_def)
    next
      show "low (?g' ! ?v) = 0"
        using v lg by (simp add: setProcessing_def setLow_def)
    qed
    with res show ?thesis by blast
  next
    case False
    with k have k1: "Suc k < ?n" by simp
    then have dk: "?d = ord ! Suc k" by simp
    have dv: "?d \<noteq> ?v" using cycle_ord_inj[OF cyc k1 k(2)] dk by auto
    have g1d: "?g1 ! ?d = g ! ?d" using dv by simp
    have un: "isUnvisited ?g1 (dest e)"
      using st k1 d e g1d lg dk by (simp add: isUnvisited_def cycState_def)
    have st1a: "\<forall>j < Suc k. visited (?g1 ! (ord ! j)) \<and> processing (?g1 ! (ord ! j)) \<and>
                 num (?g1 ! (ord ! j)) = int j"
    proof (intro allI impI)
      fix j assume j: "j < Suc k"
      show "visited (?g1 ! (ord ! j)) \<and> processing (?g1 ! (ord ! j)) \<and> num (?g1 ! (ord ! j)) = int j"
      proof (cases "j = k")
        case True
        then show ?thesis using g1v by (simp add: enterVertex_def)
      next
        case False
        with j have jk: "j < k" by simp
        with k have "j < ?n" by simp
        from g1o[OF this False] st jk show ?thesis by (simp add: cycState_def)
      qed
    qed
    have st1b: "\<forall>j. Suc k \<le> j \<and> j < ?n \<longrightarrow> \<not> visited (?g1 ! (ord ! j))"
    proof (intro allI impI)
      fix j assume j: "Suc k \<le> j \<and> j < ?n"
      then have "j < ?n" "j \<noteq> k" by simp_all
      from g1o[OF this] st j show "\<not> visited (?g1 ! (ord ! j))" by (simp add: cycState_def)
    qed
    have st1: "cycState g0 ord (Suc k) ?g1"
      using fr1 st1a st1b unfolding cycState_def by blast
    have m: "?n - Suc k = m" using Suc.prems(1) by simp
    from Suc.IH[OF m _ k1 st1, of "?c # s"]
    obtain g1' where rec: "dfsEssentialAirports (ord ! Suc k) (?g1, ?c # s, res, int (Suc k)) = (g1', ?c # s, res, int ?n)"
      and done1: "cycDone g0 ord (Suc k) ?g1 g1'"
      by auto
    from done1 have fr1': "map storeFrame g1' = map storeFrame g0"
      and keep: "g1' ! ?v = ?g1 ! ?v" and lowd: "low (g1' ! (ord ! Suc k)) = 0"
      by (auto simp: cycDone_def)
    have lg1': "length g1' = ?n" using fr1' by (metis length_map)
    let ?g2 = "g1'[?v := setLow 0 (g1' ! ?v)]"
    let ?w = "ord ! Suc k"
    have de: "dest e = ?w" using e dk by simp
    have ik: "int (Suc k) = int k + 1" by simp
    note rec' = rec[unfolded ik]
    have lowv: "min (low (g1' ! ?v)) (low (g1' ! ?w)) = 0"
      using keep g1v lowd by (simp add: enterVertex_def)
    have g2v: "?g2 ! ?v = setLow 0 (g1' ! ?v)" using v lg1' by simp
    have g2d: "?g2 ! ?w = g1' ! ?w" using dv dk by simp
    have noins: "\<not> ((num (?g2 ! ?v) \<noteq> 0 \<and> num (?g2 ! ?v) \<le> low (?g2 ! ?w)) \<or>
                             (num (?g2 ! ?v) = 0 \<and> (1::int) < 0 + 1))"
      using g2v g2d keep g1v lowd k by (simp add: setLow_def enterVertex_def)
    have "essentialFlights ?v [e] 0 (?g1, ?c # s, res, int k + 1) =
        (case dfsEssentialAirports ?w (?g1, ?c # s, res, int k + 1) of
           (g1, s1, res1, i1) \<Rightarrow>
             (let g2 = g1[?v := setLow (min (low (g1 ! ?v)) (low (g1 ! ?w))) (g1 ! ?v)];
                  res2 = (if (num (g2 ! ?v) \<noteq> 0 \<and> num (g2 ! ?v) \<le> low (g2 ! ?w)) \<or>
                             (num (g2 ! ?v) = 0 \<and> 1 < (0::int) + 1)
                          then insert (code (info (g2 ! ?v))) res1 else res1)
              in essentialFlights ?v [] (0 + 1) (g2, s1, res2, i1)))"
      using un by (simp only: essentialFlights.simps de if_True)
    also have "\<dots> = (?g2, ?c # s, res, int ?n)"
      unfolding rec' using noins
      by (simp only: prod.case Let_def lowv if_False essentialFlights.simps)
    finally have fl: "essentialFlights ?v [e] 0 (?g1, ?c # s, res, int k + 1) = (?g2, ?c # s, res, int ?n)" .
    let ?g' = "?g2[?v := setProcessing False (?g2 ! ?v)]"
    have res: "dfsEssentialAirports ?v (g, s, res, int k) = (?g', s, res, int ?n)"
      unfolding unfold fl by simp
    have "cycDone g0 ord k g ?g'"
      unfolding cycDone_def
    proof (intro conjI allI impI)
      show "map storeFrame ?g' = map storeFrame g0"
        using storeFrame_setProcessing[of ?g2 ?v False] storeFrame_setLow[of g1' ?v 0] fr1'
        by (simp only:)
    next
      fix j assume j: "j < k"
      then have ne: "ord ! j \<noteq> ?v" using cycle_ord_inj[OF cyc _ k(2), of j] k by auto
      from j done1 have "g1' ! (ord ! j) = ?g1 ! (ord ! j)" by (simp add: cycDone_def)
      with ne show "?g' ! (ord ! j) = g ! (ord ! j)" by simp
    next
      fix j assume j: "k \<le> j \<and> j < ?n"
      show "visited (?g' ! (ord ! j))"
      proof (cases "j = k")
        case True
        then show ?thesis
          using v lg1' keep g1v by (simp add: setProcessing_def setLow_def enterVertex_def)
      next
        case False
        with j have j1: "Suc k \<le> j \<and> j < ?n" by simp
        then have ne: "ord ! j \<noteq> ?v" using cycle_ord_inj[OF cyc _ k(2), of j] by auto
        from j1 done1 have "visited (g1' ! (ord ! j))" by (simp add: cycDone_def)
        with ne show ?thesis by simp
      qed
    next
      show "low (?g' ! ?v) = 0"
        using v lg1' by (simp add: setProcessing_def setLow_def)
    qed
    with res show ?thesis by blast
  qed
qed


lemma essentialRoots_visited:
  "\<forall>v \<in> set vs. \<not> isUnvisited (fst st) v \<Longrightarrow> essentialRoots vs st = st"
proof (induction vs st rule: essentialRoots.induct)
  case (1 st)
  then show ?case by simp
next
  case (2 v vs g s res i)
  then show ?case by (simp del: dfsEssentialAirports.simps)
qed

lemma cycle_root:
  assumes cyc: "directedCycle g ord" and o0: "ord ! 0 = 0"
  shows "\<exists>g'. dfsEssentialAirports 0 (resetVisited g, [], {}, 0) = (g', [], {}, int (length g)) \<and>
              (\<forall>v < length g. visited (g' ! v))"
proof -
  let ?n = "length g"
  let ?gr = "resetVisited g"
  let ?v = "ord ! 0"
  let ?w = "ord ! Suc 0"
  from cyc have n3: "3 \<le> ?n" by (simp add: directedCycle_def)
  then have n0: "0 < ?n" and n1: "Suc 0 < ?n" by linarith+
  have fr: "map storeFrame ?gr = map storeFrame g" by simp
  obtain e where e: "adj (?gr ! ?v) = [e]" "dest e = ord ! (Suc 0 mod ?n)"
    using cycle_edge[OF cyc fr n0] by blast
  have de: "dest e = ?w" using e n1 by simp
  have v: "?v < ?n" by (rule cycle_ord_lt[OF cyc n0])
  have wv: "?w \<noteq> ?v" using cycle_ord_inj[OF cyc n1 n0] by auto
  let ?g1 = "?gr[?v := enterVertex 0 (?gr ! ?v)]"
  let ?c = "code (info (?gr ! ?v))"
  have unfold: "dfsEssentialAirports ?v (?gr, [], {}, 0) =
      (case essentialFlights ?v [e] 0 (?g1, [?c], {}, 0 + 1) of
         (g', s', res', i') \<Rightarrow> (g'[?v := setProcessing False (g' ! ?v)], tl s', res', i'))"
    by (subst dfsEssentialAirports.simps) (simp only: e)
  have g1v: "?g1 ! ?v = enterVertex 0 (?gr ! ?v)" using v by simp
  have g1o: "\<And>j. j < ?n \<Longrightarrow> j \<noteq> 0 \<Longrightarrow> ?g1 ! (ord ! j) = ?gr ! (ord ! j)"
    using cycle_ord_inj[OF cyc _ n0] by (metis nth_list_update_neq)
  have unv: "\<And>u. u < ?n \<Longrightarrow> \<not> visited (?gr ! u)"
    by (simp add: resetVisited_def setVisited_def)
  have un: "isUnvisited ?g1 ?w"
    using g1o[OF n1] unv[OF cycle_ord_lt[OF cyc n1]] cycle_ord_lt[OF cyc n1]
    by (simp add: isUnvisited_def)
  have st1: "cycState g ord (Suc 0) ?g1"
  proof -
    have "map storeFrame ?g1 = map storeFrame g"
      using storeFrame_enterVertex[of ?gr ?v 0] fr by (simp only:)
    moreover have "\<forall>j < Suc 0. visited (?g1 ! (ord ! j)) \<and> processing (?g1 ! (ord ! j)) \<and>
                 num (?g1 ! (ord ! j)) = int j"
      using g1v by (simp add: enterVertex_def)
    moreover have "\<forall>j. Suc 0 \<le> j \<and> j < ?n \<longrightarrow> \<not> visited (?g1 ! (ord ! j))"
    proof (intro allI impI)
      fix j assume j: "Suc 0 \<le> j \<and> j < ?n"
      then have "j < ?n" "j \<noteq> 0" by simp_all
      from g1o[OF this] unv[OF cycle_ord_lt[OF cyc this(1)]]
      show "\<not> visited (?g1 ! (ord ! j))" by simp
    qed
    ultimately show ?thesis unfolding cycState_def by blast
  qed
  from cycle_descend_aux[OF cyc refl _ n1 st1, of "[?c]" "{}"]
  obtain g1' where rec: "dfsEssentialAirports ?w (?g1, [?c], {}, int (Suc 0)) = (g1', [?c], {}, int ?n)"
    and done1: "cycDone g ord (Suc 0) ?g1 g1'"
    by auto
  have i1: "int (Suc 0) = 0 + 1" by simp
  note rec' = rec[unfolded i1]
  from done1 have fr1': "map storeFrame g1' = map storeFrame g"
    and keep: "g1' ! ?v = ?g1 ! ?v" and lowd: "low (g1' ! ?w) = 0"
    and vis1: "\<forall>j. Suc 0 \<le> j \<and> j < ?n \<longrightarrow> visited (g1' ! (ord ! j))"
    by (auto simp: cycDone_def)
  have lg1': "length g1' = ?n" using fr1' by (metis length_map)
  let ?g2 = "g1'[?v := setLow 0 (g1' ! ?v)]"
  have lowv: "min (low (g1' ! ?v)) (low (g1' ! ?w)) = 0"
    using keep g1v lowd by (simp add: enterVertex_def)
  have g2v: "?g2 ! ?v = setLow 0 (g1' ! ?v)" using v lg1' by simp
  have noins: "\<not> ((num (?g2 ! ?v) \<noteq> 0 \<and> num (?g2 ! ?v) \<le> low (?g2 ! ?w)) \<or>
                             (num (?g2 ! ?v) = 0 \<and> (1::int) < 0 + 1))"
    using g2v keep g1v by (simp add: setLow_def enterVertex_def)
  have "essentialFlights ?v [e] 0 (?g1, [?c], {}, 0 + 1) =
        (case dfsEssentialAirports ?w (?g1, [?c], {}, 0 + 1) of
           (g1, s1, res1, i1) \<Rightarrow>
             (let g2 = g1[?v := setLow (min (low (g1 ! ?v)) (low (g1 ! ?w))) (g1 ! ?v)];
                  res2 = (if (num (g2 ! ?v) \<noteq> 0 \<and> num (g2 ! ?v) \<le> low (g2 ! ?w)) \<or>
                             (num (g2 ! ?v) = 0 \<and> 1 < (0::int) + 1)
                          then insert (code (info (g2 ! ?v))) res1 else res1)
              in essentialFlights ?v [] (0 + 1) (g2, s1, res2, i1)))"
    using un by (simp only: essentialFlights.simps de if_True)
  also have "\<dots> = (?g2, [?c], {}, int ?n)"
    unfolding rec' using noins
    by (simp only: prod.case Let_def lowv if_False essentialFlights.simps)
  finally have fl: "essentialFlights ?v [e] 0 (?g1, [?c], {}, 0 + 1) = (?g2, [?c], {}, int ?n)" .
  let ?g' = "?g2[?v := setProcessing False (?g2 ! ?v)]"
  have res: "dfsEssentialAirports ?v (?gr, [], {}, 0) = (?g', [], {}, int ?n)"
    unfolding unfold fl by simp
  have "\<forall>u < ?n. visited (?g' ! u)"
  proof (intro allI impI)
    fix u assume u: "u < ?n"
    with cyc obtain j where j: "j < ?n" "u = ord ! j"
      unfolding directedCycle_def by (metis in_set_conv_nth lessThan_iff)
    show "visited (?g' ! u)"
    proof (cases "j = 0")
      case True
      with j show ?thesis
        using v lg1' keep g1v by (simp add: setProcessing_def setLow_def enterVertex_def)
    next
      case False
      with j have "Suc 0 \<le> j \<and> j < ?n" by simp
      with vis1 have "visited (g1' ! (ord ! j))" by blast
      moreover have "ord ! j \<noteq> ?v" using cycle_ord_inj[OF cyc j(1) n0] False by auto
      ultimately show ?thesis using j by simp
    qed
  qed
  with res o0 show ?thesis by (simp del: dfsEssentialAirports.simps)
qed


lemma cycle_rotate:
  assumes cyc: "directedCycle g ord"
  shows "\<exists>ord'. directedCycle g ord' \<and> ord' ! 0 = 0"
proof -
  let ?n = "length g"
  from cyc have "3 \<le> ?n" by (simp add: directedCycle_def)
  then have n0: "0 < ?n" by linarith
  from cyc have lo: "length ord = ?n" and so: "set ord = {..<?n}"
    by (simp_all add: directedCycle_def)
  have "0 \<in> set ord" using so n0 by (metis lessThan_iff)
  then obtain k0 where k0: "k0 < ?n" "ord ! k0 = 0"
    using lo by (metis in_set_conv_nth)
  let ?ord = "rotate k0 ord"
  have nth: "\<And>j. j < ?n \<Longrightarrow> ?ord ! j = ord ! ((k0 + j) mod ?n)"
    using lo by (simp add: nth_rotate)
  have "\<forall>k < ?n. map dest (adj (g ! (?ord ! k))) = [?ord ! (Suc k mod ?n)]"
  proof (intro allI impI)
    fix k assume k: "k < ?n"
    have m: "(k0 + k) mod ?n < ?n" using n0 by simp
    have "map dest (adj (g ! (?ord ! k))) = [ord ! (Suc ((k0 + k) mod ?n) mod ?n)]"
      using cyc m nth[OF k] by (simp add: directedCycle_def)
    also have "Suc ((k0 + k) mod ?n) mod ?n = (k0 + Suc k mod ?n) mod ?n"
      by (metis add_Suc_right mod_Suc_eq mod_add_right_eq)
    also have "ord ! ((k0 + Suc k mod ?n) mod ?n) = ?ord ! (Suc k mod ?n)"
      using nth[of "Suc k mod ?n"] n0 by simp
    finally show "map dest (adj (g ! (?ord ! k))) = [?ord ! (Suc k mod ?n)]" .
  qed
  then have "directedCycle g ?ord"
    unfolding directedCycle_def using \<open>3 \<le> ?n\<close> lo so by (simp only: length_rotate set_rotate simp_thms)
  moreover have "?ord ! 0 = 0" using nth[OF n0] k0 by simp
  ultimately show ?thesis by blast
qed


lemma exTriangle_length: "length exTriangle = 3"
  by (simp add: exTriangle_def)

lemma exTriangle_cycle: "directedCycle exTriangle [1, 0, 2]"
proof -
  have s: "set [1, 0, 2::nat] = {..<3}"
    by (auto simp: numeral_3_eq_3 less_Suc_eq)
  have e: "\<forall>k < 3. map dest (adj (exTriangle ! ([1, 0, 2] ! k))) = [[1, 0, 2] ! (Suc k mod 3)]"
  proof (intro allI impI)
    fix k :: nat assume "k < 3"
    then consider "k = 0" | "k = 1" | "k = 2" by linarith
    then show "map dest (adj (exTriangle ! ([1, 0, 2] ! k))) = [[1, 0, 2] ! (Suc k mod 3)]"
      by cases (simp_all add: exTriangle_def mkVertex_def newEdge_def)
  qed
  show ?thesis
    unfolding directedCycle_def exTriangle_length using s e by simp
qed

section \<open>Composition of path segments\<close>

lemma mergeVectors_aligned:
  "a \<noteq> [] \<Longrightarrow> b \<noteq> [] \<Longrightarrow> last a = hd b \<Longrightarrow> mergeVectors a b = a @ tl b"
  by (simp add: mergeVectors_def)

lemma mergeVectors_empty_iff:
  "mergeVectors a b = [] \<longleftrightarrow> a = [] \<or> b = [] \<or> last a \<noteq> hd b"
  by (simp add: mergeVectors_def)

lemma set_crossMerge:
  "set (crossMerge A B) = {mergeVectors a b | a b. a \<in> set A \<and> b \<in> set B}"
  by (auto simp: crossMerge_def)

lemma joinSegments_snoc:
  "segs \<noteq> [] \<Longrightarrow> joinSegments (segs @ [b]) = joinSegments segs @ tl b"
  by (cases segs) simp_all

lemma chained_single:
  "p \<noteq> [] \<Longrightarrow> hd p = s \<Longrightarrow> last p = t \<Longrightarrow> chained [s, t] p"
  unfolding chained_def
  by (auto intro!: exI[of _ "[p]"])

lemma chained_extend:
  assumes c: "chained stops p" and b: "b \<noteq> []" "hd b = last stops" "last b = t"
  shows "chained (stops @ [t]) (mergeVectors p b)"
proof -
  from c obtain segs where segs: "length stops = Suc (length segs)"
    "\<forall>i < length segs. segs ! i \<noteq> [] \<and> hd (segs ! i) = stops ! i \<and> last (segs ! i) = stops ! Suc i"
    "p = joinSegments segs"
    and p: "p \<noteq> []" "hd p = hd stops" "last p = last stops"
    unfolding chained_def by blast
  from p(1) segs(3) have ne: "segs \<noteq> []" by auto
  from segs(1) have sne: "stops \<noteq> []" by auto
  have m: "mergeVectors p b = p @ tl b"
    using p b by (simp add: mergeVectors_aligned)
  let ?segs = "segs @ [b]"
  have 1: "length (stops @ [t]) = Suc (length ?segs)" using segs(1) by simp
  have 2: "\<forall>i < length ?segs. ?segs ! i \<noteq> [] \<and> hd (?segs ! i) = (stops @ [t]) ! i \<and>
              last (?segs ! i) = (stops @ [t]) ! Suc i"
  proof (intro allI impI)
    fix i assume i: "i < length ?segs"
    show "?segs ! i \<noteq> [] \<and> hd (?segs ! i) = (stops @ [t]) ! i \<and>
              last (?segs ! i) = (stops @ [t]) ! Suc i"
    proof (cases "i < length segs")
      case True
      with segs(1,2) show ?thesis by (simp add: nth_append)
    next
      case False
      with i have ii: "i = length segs" by simp
      have "last stops = stops ! length segs"
        using segs(1) sne by (simp add: last_conv_nth)
      with ii b segs(1) show ?thesis by (simp add: nth_append)
    qed
  qed
  have 3: "mergeVectors p b = joinSegments ?segs"
    using m segs(3) joinSegments_snoc[OF ne] by simp
  have 4: "mergeVectors p b \<noteq> []" "hd (mergeVectors p b) = hd (stops @ [t])"
    using m p sne by simp_all
  have 5: "last (mergeVectors p b) = last (stops @ [t])"
  proof (cases "tl b = []")
    case True
    with b have "b = [t]" by (cases b) auto
    with b(2) p(3) m True show ?thesis by simp
  next
    case False
    with b m show ?thesis by (simp add: last_tl)
  qed
  from 1 2 3 4 5 show ?thesis unfolding chained_def by blast
qed

lemma chainLayovers_ok:
  assumes "set ls \<subseteq> {..<length g}" "ls \<noteq> []"
    and "\<forall>p \<in> set temp. chained (pre @ [hd ls]) p \<and> set p \<subseteq> {..<length g}"
  shows "\<exists>temp' g'. chainLayovers g ls temp = Inr (temp', g') \<and>
           map storeFrame g' = map storeFrame g \<and>
           (\<forall>p \<in> set temp'. chained (pre @ ls) p \<and> set p \<subseteq> {..<length g})"
  using assms
proof (induction g ls temp arbitrary: pre rule: chainLayovers.induct)
  case (1 g a b rest temp)
  from "1.prems"(1) have a: "a < length g" and b: "b < length g" by simp_all
  from searchSmallestPath_ok[OF a b] obtain ps g1 where
    s: "searchSmallestPathBetweenAirports g (Some a) (Some b) = Inr (ps, g1)"
    and fr: "map storeFrame g1 = map storeFrame g"
    and ps: "\<forall>p \<in> set ps. p \<noteq> [] \<and> hd p = a \<and> last p = b \<and> set p \<subseteq> {..<length g}"
    by blast
  have lg: "length g1 = length g" using fr by (metis length_map)
  have t: "\<forall>p \<in> set (crossMerge temp ps). chained ((pre @ [a]) @ [hd (b # rest)]) p \<and>
              set p \<subseteq> {..<length g1}"
  proof
    fix p assume "p \<in> set (crossMerge temp ps)"
    then obtain x y where xy: "x \<in> set temp" "y \<in> set ps" "p = mergeVectors x y"
      by (auto simp: set_crossMerge)
    from "1.prems"(3) xy(1) have cx: "chained (pre @ [a]) x" and sx: "set x \<subseteq> {..<length g}"
      by simp_all
    from ps xy(2) have y: "y \<noteq> []" "hd y = last (pre @ [a])" "last y = b" "set y \<subseteq> {..<length g}"
      by simp_all
    from cx have "x \<noteq> []" "last x = a" by (simp_all add: chained_def)
    with y have "p = x @ tl y" using xy(3) by (simp add: mergeVectors_aligned)
    moreover have "set (tl y) \<subseteq> set y" by (cases y) auto
    ultimately have "set p \<subseteq> {..<length g1}" using sx y(4) lg by auto
    with chained_extend[OF cx y(1,2,3)] xy(3) show
      "chained ((pre @ [a]) @ [hd (b # rest)]) p \<and> set p \<subseteq> {..<length g1}"
      by simp
  qed
  have "set (b # rest) \<subseteq> {..<length g1}" using "1.prems"(1) lg by simp
  from "1.IH"[OF s refl this _ t] s fr lg show ?case
    by auto
qed simp_all


lemma customLayoverPaths_ok:
  assumes l: "lays \<noteq> []" "set lays \<subseteq> {..<length g}" and s: "s < length g" and t: "t < length g"
  shows "\<exists>paths g'. customLayoverPaths g lays s t = Inr (paths, g') \<and>
           map storeFrame g' = map storeFrame g \<and>
           (\<forall>p \<in> set paths. chained (s # lays @ [t]) p \<and> set p \<subseteq> {..<length g})"
proof -
  from l obtain l0 ls where lays: "lays = l0 # ls" by (cases lays) auto
  with l have l0: "l0 < length g" by simp
  from searchSmallestPath_ok[OF s l0] obtain temp g1 where
    s1: "searchSmallestPathBetweenAirports g (Some s) (Some l0) = Inr (temp, g1)"
    and fr1: "map storeFrame g1 = map storeFrame g"
    and t1: "\<forall>p \<in> set temp. p \<noteq> [] \<and> hd p = s \<and> last p = l0 \<and> set p \<subseteq> {..<length g}"
    by blast
  have lg1: "length g1 = length g" using fr1 by (metis length_map)
  have c1: "\<forall>p \<in> set temp. chained ([s] @ [hd lays]) p \<and> set p \<subseteq> {..<length g1}"
    using t1 lays lg1 by (auto intro: chained_single)
  have "set lays \<subseteq> {..<length g1}" using l lg1 by simp
  from chainLayovers_ok[OF this l(1) c1] obtain temp' g2 where
    s2: "chainLayovers g1 lays temp = Inr (temp', g2)"
    and fr2: "map storeFrame g2 = map storeFrame g1"
    and t2: "\<forall>p \<in> set temp'. chained ([s] @ lays) p \<and> set p \<subseteq> {..<length g1}"
    by blast
  have lg2: "length g2 = length g" using fr2 lg1 by (metis length_map)
  have ll: "last lays < length g2" using l lg2 by (metis last_in_set lessThan_iff subsetD)
  have tt: "t < length g2" using t lg2 by simp
  from searchSmallestPath_ok[OF ll tt] obtain temp2 g3 where
    s3: "searchSmallestPathBetweenAirports g2 (Some (last lays)) (Some t) = Inr (temp2, g3)"
    and fr3: "map storeFrame g3 = map storeFrame g2"
    and t3: "\<forall>p \<in> set temp2. p \<noteq> [] \<and> hd p = last lays \<and> last p = t \<and> set p \<subseteq> {..<length g2}"
    by blast
  have r: "customLayoverPaths g lays s t = Inr (crossMerge temp' temp2, g3)"
    using s1 s2 s3 lays by (simp add: customLayoverPaths_def)
  have "\<forall>p \<in> set (crossMerge temp' temp2). chained (s # lays @ [t]) p \<and> set p \<subseteq> {..<length g}"
  proof
    fix p assume "p \<in> set (crossMerge temp' temp2)"
    then obtain x y where xy: "x \<in> set temp'" "y \<in> set temp2" "p = mergeVectors x y"
      by (auto simp: set_crossMerge)
    from t2 xy(1) have cx: "chained (s # lays) x" and sx: "set x \<subseteq> {..<length g}"
      using lg1 by simp_all
    from t3 xy(2) l(1) have y: "y \<noteq> []" "hd y = last (s # lays)" "last y = t" "set y \<subseteq> {..<length g}"
      using lg2 by simp_all
    from cx have "x \<noteq> []" "last x = last (s # lays)" by (simp_all add: chained_def)
    with y have "p = x @ tl y" using xy(3) by (simp add: mergeVectors_aligned)
    moreover have "set (tl y) \<subseteq> set y" by (cases y) auto
    ultimately have "set p \<subseteq> {..<length g}" using sx y(4) by auto
    with chained_extend[OF cx y(1,2,3)] xy(3)
    show "chained (s # lays @ [t]) p \<and> set p \<subseteq> {..<length g}" by simp
  qed
  with r fr1 fr2 fr3 show ?thesis by simp
qed

lemma firstDistance_ok:
  "t < length g \<Longrightarrow> \<exists>d. firstDistance g (Some t) es = Inr d"
  by (induction es) auto

lemma getDistance_ok:
  "a < length g \<Longrightarrow> b < length g \<Longrightarrow> \<exists>d. getDistanceBetweenAirports g (Some a) (Some b) = Inr d"
  by (simp add: getDistanceBetweenAirports_def firstDistance_ok)

lemma pathDistance_ok:
  "p \<noteq> [] \<Longrightarrow> set p \<subseteq> {..<length g} \<Longrightarrow> \<exists>d. pathDistance g p = Inr d"
proof (induction g p rule: pathDistance.induct)
  case (1 g)
  then show ?case by simp
next
  case (2 g a)
  then show ?case by simp
next
  case (3 g a b rest)
  from "3.prems" obtain d where d: "getDistanceBetweenAirports g (Some a) (Some b) = Inr d"
    using getDistance_ok[of a g b] by auto
  from "3.IH"[OF d] "3.prems" obtain r where "pathDistance g (b # rest) = Inr r" by auto
  with d show ?case by simp
qed

lemma evaluatePaths_ok:
  "\<forall>v \<in> set paths. v \<noteq> [] \<and> set v \<subseteq> {..<length g} \<and> P v \<Longrightarrow>
   \<forall>x \<in> set tp. P (fst (snd x)) \<Longrightarrow>
   \<exists>m' tp'. evaluatePaths g paths (m, tp) = Inr (m', tp') \<and> (\<forall>x \<in> set tp'. P (fst (snd x)))"
proof (induction paths arbitrary: m tp)
  case Nil
  then show ?case by simp
next
  case (Cons v vs)
  let ?c = "int (length v) - 2"
  let ?m = "if ?c < m then ?c else m"
  let ?tp = "if ?c < m then [] else tp"
  from Cons.prems obtain d where d: "pathDistance g v = Inr d"
    using pathDistance_ok[of v g] by auto
  have vs: "\<forall>v \<in> set vs. v \<noteq> [] \<and> set v \<subseteq> {..<length g} \<and> P v" using Cons.prems by simp
  have tp: "\<forall>x \<in> set ?tp. P (fst (snd x))" using Cons.prems by simp
  have tp1: "\<forall>x \<in> set (?tp @ [([], v, d)]). P (fst (snd x))" using Cons.prems by simp
  show ?case
  proof (cases "?c = ?m")
    case True
    from Cons.IH[OF vs tp1, of ?m] True d show ?thesis
      by (simp add: Let_def split: if_splits)
  next
    case False
    from Cons.IH[OF vs tp, of ?m] False show ?thesis
      by (simp add: Let_def split: if_splits)
  qed
qed

lemma bestForDestinations_ok:
  assumes l: "lays \<noteq> []" "set lays \<subseteq> {..<N}" and s: "s < N"
  shows "set ds \<subseteq> {..<N} \<Longrightarrow> length g = N \<Longrightarrow>
   \<forall>t \<in> set ds. \<forall>p. chained (s # lays @ [t]) p \<longrightarrow> P p \<Longrightarrow>
   \<forall>x \<in> set tp. P (fst (snd x)) \<Longrightarrow>
   \<exists>g' m' tp'. bestForDestinations lays s ds (g, m, tp) = Inr (g', m', tp') \<and>
      map storeFrame g' = map storeFrame g \<and> (\<forall>x \<in> set tp'. P (fst (snd x)))"
proof (induction ds arbitrary: g m tp)
  case Nil
  then show ?case by simp
next
  case (Cons t ds)
  from Cons.prems have t: "t < length g" and sg: "s < length g" and lg: "set lays \<subseteq> {..<length g}"
    using l s by simp_all
  from customLayoverPaths_ok[OF l(1) lg sg t] obtain paths g1 where
    c: "customLayoverPaths g lays s t = Inr (paths, g1)"
    and fr1: "map storeFrame g1 = map storeFrame g"
    and ps: "\<forall>p \<in> set paths. chained (s # lays @ [t]) p \<and> set p \<subseteq> {..<length g}"
    by blast
  have lg1: "length g1 = N" using fr1 Cons.prems(2) by (metis length_map)
  have "\<forall>v \<in> set paths. v \<noteq> [] \<and> set v \<subseteq> {..<length g1} \<and> P v"
    using ps Cons.prems(2,3) lg1 by (auto simp: chained_def)
  from evaluatePaths_ok[OF this Cons.prems(4), of m] obtain m1 tp1 where
    e: "evaluatePaths g1 paths (m, tp) = Inr (m1, tp1)" and tp1: "\<forall>x \<in> set tp1. P (fst (snd x))"
    by blast
  have ds: "set ds \<subseteq> {..<N}" "\<forall>t \<in> set ds. \<forall>p. chained (s # lays @ [t]) p \<longrightarrow> P p"
    using Cons.prems by simp_all
  from Cons.IH[OF ds(1) lg1 ds(2) tp1, of m1] c e fr1 show ?case
    by auto
qed

lemma bestForSources_ok:
  assumes l: "lays \<noteq> []" "set lays \<subseteq> {..<N}" and d: "set ds \<subseteq> {..<N}"
  shows "set srcs \<subseteq> {..<N} \<Longrightarrow> length g = N \<Longrightarrow>
   \<forall>s \<in> set srcs. \<forall>t \<in> set ds. \<forall>p. chained (s # lays @ [t]) p \<longrightarrow> P p \<Longrightarrow>
   \<forall>x \<in> set tp. P (fst (snd x)) \<Longrightarrow>
   \<exists>g' m' tp'. bestForSources lays srcs ds (g, m, tp) = Inr (g', m', tp') \<and>
      map storeFrame g' = map storeFrame g \<and> (\<forall>x \<in> set tp'. P (fst (snd x)))"
proof (induction srcs arbitrary: g m tp)
  case Nil
  then show ?case by simp
next
  case (Cons s srcs)
  from Cons.prems have s: "s < N" by simp
  have "\<forall>t \<in> set ds. \<forall>p. chained (s # lays @ [t]) p \<longrightarrow> P p" using Cons.prems(3) by simp
  from bestForDestinations_ok[OF l s d Cons.prems(2) this Cons.prems(4), of m]
  obtain g1 m1 tp1 where
    b: "bestForDestinations lays s ds (g, m, tp) = Inr (g1, m1, tp1)"
    and fr1: "map storeFrame g1 = map storeFrame g" and tp1: "\<forall>x \<in> set tp1. P (fst (snd x))"
    by blast
  have lg1: "length g1 = N" using fr1 Cons.prems(2) by (metis length_map)
  have ss: "set srcs \<subseteq> {..<N}"
    "\<forall>s \<in> set srcs. \<forall>t \<in> set ds. \<forall>p. chained (s # lays @ [t]) p \<longrightarrow> P p"
    using Cons.prems by simp_all
  from Cons.IH[OF ss(1) lg1 ss(2) tp1, of m1] b fr1 show ?case
    by auto
qed


text \<open>
  \<open>mergeVectors\<close> answers segments that do not align with the empty vector, and the cross
  product stores whatever \<open>mergeVectors\<close> returns: one candidate for every pair of segments.
\<close>

lemma crossMerge_misaligned:
  "a \<noteq> b \<Longrightarrow> crossMerge [[a]] [[b]] = [[]]"
  by (simp add: crossMerge_def mergeVectors_def)

lemma length_crossMerge:
  "length (crossMerge A B) = length A * length B"
  by (induction A) (simp_all add: crossMerge_def)

lemma crossMerge_pair:
  "a \<in> set A \<Longrightarrow> b \<in> set B \<Longrightarrow>
   (if a \<noteq> [] \<and> b \<noteq> [] \<and> last a = hd b then a @ tl b else []) \<in> set (crossMerge A B)"
proof -
  assume "a \<in> set A" "b \<in> set B"
  then have "mergeVectors a b \<in> set (crossMerge A B)"
    unfolding set_crossMerge by blast
  moreover have "mergeVectors a b =
      (if a \<noteq> [] \<and> b \<noteq> [] \<and> last a = hd b then a @ tl b else [])"
    by (simp add: mergeVectors_def)
  ultimately show ?thesis by simp
qed

section \<open>Breadth-first order of the shortest-path search\<close>

lemma levelSearch_sound:
  "levelSearch g b (reachedWithin g a k) k n = Some d \<Longrightarrow> \<forall>j < k. b \<notin> reachedWithin g a j \<Longrightarrow>
   b \<in> reachedWithin g a d \<and> (\<forall>j < d. b \<notin> reachedWithin g a j) \<and> d \<le> k + n"
proof (induction n arbitrary: k)
  case 0
  then show ?case by (auto split: if_splits)
next
  case (Suc n)
  show ?case
  proof (cases "b \<in> reachedWithin g a k")
    case True
    with Suc.prems show ?thesis by auto
  next
    case False
    with Suc.prems(1) have "levelSearch g b (reachedWithin g a (Suc k)) (Suc k) n = Some d"
      by simp
    moreover from False Suc.prems(2) have "\<forall>j < Suc k. b \<notin> reachedWithin g a j"
      by (auto simp: less_Suc_eq)
    ultimately show ?thesis using Suc.IH[of "Suc k"] by auto
  qed
qed

lemma hopDistance_sound:
  "hopDistance g a b = Some d \<Longrightarrow>
   b \<in> reachedWithin g a d \<and> (\<forall>j < d. b \<notin> reachedWithin g a j) \<and> d \<le> length g"
  using levelSearch_sound[of g b a 0 "length g" d] by (simp add: hopDistance_def)

lemma scanFlights_target_step:
  assumes "Some (dest e) = target"
  shows "\<exists>sp1 ss1. scanFlights target (e # es) cur (q, g, sp, ss) =
           scanFlights target es (cur @ [dest e]) (q, g, sp1, ss1) \<and>
           ss1 \<le> ss \<and> ss1 \<le> Suc (length cur)"
proof -
  consider (less) "Suc (length cur) < ss" | (eq) "Suc (length cur) = ss" | (greater) "ss < Suc (length cur)"
    by linarith
  then show ?thesis
  proof cases
    case less
    with assms have "scanFlights target (e # es) cur (q, g, sp, ss) =
           scanFlights target es (cur @ [dest e]) (q, g, [cur @ [dest e]], Suc (length cur))"
      by (simp add: Let_def)
    with less show ?thesis by (metis less_imp_le_nat order_refl)
  next
    case eq
    with assms have "scanFlights target (e # es) cur (q, g, sp, ss) =
           scanFlights target es (cur @ [dest e]) (q, g, sp @ [cur @ [dest e]], ss)"
      by (simp add: Let_def)
    with eq show ?thesis by (metis order_refl)
  next
    case greater
    with assms have "scanFlights target (e # es) cur (q, g, sp, ss) =
           scanFlights target es (cur @ [dest e]) (q, g, sp, ss)"
      by (simp add: Let_def)
    with greater show ?thesis by (metis less_imp_le_nat order_refl)
  qed
qed

lemma scanFlights_ss_le:
  "scanFlights target es cur (q, g, sp, ss) = (q', g', sp', ss') \<Longrightarrow> ss' \<le> ss"
proof (induction es arbitrary: cur q g sp ss)
  case Nil
  then show ?case by simp
next
  case (Cons e es)
  show ?case
  proof (cases "Some (dest e) = target")
    case True
    from scanFlights_target_step[OF True, of es cur q g sp ss] obtain sp1 ss1 where
      "scanFlights target (e # es) cur (q, g, sp, ss) =
         scanFlights target es (cur @ [dest e]) (q, g, sp1, ss1)" "ss1 \<le> ss"
      by blast
    with Cons.prems Cons.IH[of "cur @ [dest e]" q g sp1 ss1] show ?thesis by simp
  next
    case False
    show ?thesis
    proof (cases "isUnvisited g (dest e)")
      case True
      with False Cons.prems
        Cons.IH[of cur "q @ [(cur @ [dest e], dest e)]" "markVisited g (dest e)" sp ss]
      show ?thesis by (simp add: Let_def)
    next
      case u: False
      with False Cons.prems Cons.IH[of cur q g sp ss] show ?thesis
        by (simp add: Let_def)
    qed
  qed
qed

lemma scanFlights_hit:
  "b \<in> dest ` set es \<Longrightarrow> scanFlights (Some b) es cur (q, g, sp, ss) = (q', g', sp', ss') \<Longrightarrow>
   ss' \<le> Suc (length cur)"
proof (induction es arbitrary: q g)
  case Nil
  then show ?case by simp
next
  case (Cons e es)
  show ?case
  proof (cases "dest e = b")
    case True
    then have "Some (dest e) = Some b" by simp
    from scanFlights_target_step[OF this, of es cur q g sp ss] True obtain sp1 ss1 where
      eq: "scanFlights (Some b) (e # es) cur (q, g, sp, ss) =
         scanFlights (Some b) es (cur @ [b]) (q, g, sp1, ss1)" and le: "ss1 \<le> Suc (length cur)"
      by auto
    from eq Cons.prems(2) have "scanFlights (Some b) es (cur @ [b]) (q, g, sp1, ss1) = (q', g', sp', ss')"
      by simp
    from scanFlights_ss_le[OF this] le show ?thesis by simp
  next
    case False
    with Cons.prems(1) have b: "b \<in> dest ` set es" by auto
    show ?thesis
    proof (cases "isUnvisited g (dest e)")
      case True
      with False Cons.prems(2)
        Cons.IH[OF b, of "q @ [(cur @ [dest e], dest e)]" "markVisited g (dest e)"]
      show ?thesis by (simp add: Let_def)
    next
      case u: False
      with False Cons.prems(2) Cons.IH[OF b, of q g] show ?thesis
        by (simp add: Let_def)
    qed
  qed
qed

lemma pathInv_loop_le:
  "pathInv g0 a b (q, g, sp, ss) \<Longrightarrow>
   \<exists>ssf \<le> ss. pathInv g0 a b ([], snd (pathLoop (Some b) q g sp ss), fst (pathLoop (Some b) q g sp ss), ssf)"
proof (induction "Some b" q g sp ss rule: pathLoop.induct)
  case (1 g sp ss)
  then show ?case by (auto simp: pathInv_def)
next
  case (2 path v q g sp ss)
  obtain q' g' sp' ss' where
    s: "scanFlights (Some b) (adj (g ! v)) path (q, g, sp, ss) = (q', g', sp', ss')"
    by (metis prod_cases4)
  from "2.prems" have p: "path \<noteq> []" "hd path = a" "v < length g0" "v \<in> reachedWithin g0 a (length path - 1)"
    and fr: "map storeFrame g = map storeFrame g0"
    by (auto simp: pathInv_def queued_def)
  have adj: "adj (g ! v) = adj (g0 ! v)"
    using storeFrame_nth[OF fr p(3)] by simp
  have "pathInv g0 a b (q, g, sp, ss)"
    using "2.prems" by (auto simp: pathInv_def)
  from pathInv_scan[OF this p, of "adj (g ! v)"] adj s
  have "pathInv g0 a b (q', g', sp', ss')" by simp
  from "2.hyps"[OF s[symmetric] refl refl this] obtain ssf where
    "ssf \<le> ss'" "pathInv g0 a b ([], snd (pathLoop (Some b) q' g' sp' ss'),
        fst (pathLoop (Some b) q' g' sp' ss'), ssf)"
    by blast
  with scanFlights_ss_le[OF s] have "ssf \<le> ss \<and> pathInv g0 a b ([], snd (pathLoop (Some b) q' g' sp' ss'),
        fst (pathLoop (Some b) q' g' sp' ss'), ssf)"
    by simp
  then show ?case using s by auto
qed

lemma scanFlights_noTarget:
  "b \<notin> dest ` set es \<Longrightarrow> scanFlights (Some b) es cur (q, g, sp, ss) = (q', g', sp', ss') \<Longrightarrow>
   \<exists>ws. q' = q @ map (\<lambda>w. (cur @ [w], w)) ws \<and> set ws \<subseteq> dest ` set es \<and>
        (\<forall>w \<in> set ws. w < length g \<and> \<not> visited (g ! w)) \<and>
        (\<forall>u < length g. visited (g' ! u) \<longleftrightarrow> visited (g ! u) \<or> u \<in> set ws) \<and>
        (\<forall>e \<in> set es. dest e < length g \<longrightarrow> visited (g' ! dest e))"
proof (induction es arbitrary: q g)
  case Nil
  then show ?case by auto
next
  case (Cons e es)
  from Cons.prems(1) have nb: "dest e \<noteq> b" "b \<notin> dest ` set es" by auto
  show ?case
  proof (cases "isUnvisited g (dest e)")
    case True
    let ?w = "dest e"
    let ?g1 = "markVisited g ?w"
    from True have w: "?w < length g" "\<not> visited (g ! ?w)" by (simp_all add: isUnvisited_def)
    from True nb Cons.prems(2)
    have "scanFlights (Some b) es cur (q @ [(cur @ [?w], ?w)], ?g1, sp, ss) = (q', g', sp', ss')"
      by (simp add: Let_def)
    from Cons.IH[OF nb(2) this] obtain ws where ws:
      "q' = (q @ [(cur @ [?w], ?w)]) @ map (\<lambda>w. (cur @ [w], w)) ws"
      "set ws \<subseteq> dest ` set es"
      "\<forall>w \<in> set ws. w < length ?g1 \<and> \<not> visited (?g1 ! w)"
      "\<forall>u < length ?g1. visited (g' ! u) \<longleftrightarrow> visited (?g1 ! u) \<or> u \<in> set ws"
      "\<forall>e \<in> set es. dest e < length ?g1 \<longrightarrow> visited (g' ! dest e)"
      by blast
    have 1: "q' = q @ map (\<lambda>w. (cur @ [w], w)) (?w # ws)" using ws(1) by simp
    have 2: "set (?w # ws) \<subseteq> dest ` set (e # es)" using ws(2) by auto
    have 3: "\<forall>w \<in> set (?w # ws). w < length g \<and> \<not> visited (g ! w)"
      using ws(3) w by (auto simp: visited_markVisited)
    have 4: "\<forall>u < length g. visited (g' ! u) \<longleftrightarrow> visited (g ! u) \<or> u \<in> set (?w # ws)"
      using ws(4) by (auto simp: visited_markVisited)
    have 5: "\<forall>e' \<in> set (e # es). dest e' < length g \<longrightarrow> visited (g' ! dest e')"
      using ws(5) 4 w by auto
    from 1 2 3 4 5 show ?thesis by blast
  next
    case False
    with nb Cons.prems(2)
    have "scanFlights (Some b) es cur (q, g, sp, ss) = (q', g', sp', ss')"
      by (simp add: Let_def)
    from Cons.IH[OF nb(2) this] obtain ws where ws:
      "q' = q @ map (\<lambda>w. (cur @ [w], w)) ws"
      "set ws \<subseteq> dest ` set es"
      "\<forall>w \<in> set ws. w < length g \<and> \<not> visited (g ! w)"
      "\<forall>u < length g. visited (g' ! u) \<longleftrightarrow> visited (g ! u) \<or> u \<in> set ws"
      "\<forall>e \<in> set es. dest e < length g \<longrightarrow> visited (g' ! dest e)"
      by blast
    have 5: "\<forall>e' \<in> set (e # es). dest e' < length g \<longrightarrow> visited (g' ! dest e')"
      using ws(4,5) False by (auto simp: isUnvisited_def)
    from ws 5 show ?thesis by (intro exI[of _ ws]) auto
  qed
qed

text \<open>The parts of the breadth-first invariant, one by one.\<close>

lemma bfsInvD:
  assumes "bfsInv g0 a b q g"
  shows "map storeFrame g = map storeFrame g0"
    and "\<forall>x \<in> set q. fst x \<noteq> [] \<and> hd (fst x) = a \<and> snd x < length g0 \<and> visited (g ! snd x) \<and>
                    exactLevel g0 a (snd x) (length (fst x) - 1)"
    and "sorted (map (length \<circ> fst) q)"
    and "\<forall>x \<in> set q. length (fst x) \<le> Suc (length (fst (hd q)))"
    and "q \<noteq> [] \<longrightarrow> (\<forall>u \<in> reachedWithin g0 a (length (fst (hd q)) - 1).
                     u < length g0 \<and> visited (g ! u))"
    and "\<forall>u < length g0. visited (g ! u) \<longrightarrow>
        u \<in> snd ` set q \<or>
        (\<forall>w \<in> set (succs g0 u). w \<noteq> b \<and> w < length g0 \<and> visited (g ! w))"
    and "\<forall>u < length g0. visited (g ! u) \<longrightarrow> u \<noteq> b"
    and "a < length g0" and "visited (g ! a)"
  using assms unfolding bfsInv_def by blast+

lemma bfsInv_init:
  assumes "a < length g" "a \<noteq> b"
  shows "bfsInv g a b [([a], a)] (markVisited (resetVisited g) a)"
proof -
  let ?g1 = "markVisited (resetVisited g) a"
  have v: "\<And>u. u < length g \<Longrightarrow> visited (?g1 ! u) \<longleftrightarrow> u = a"
    by (simp add: visited_markVisited resetVisited_def setVisited_def)
  show ?thesis
    unfolding bfsInv_def using assms v by (auto simp: exactLevel_def)
qed

lemma bfsInv_empty_step:
  assumes "bfsInv g0 a b [] g" "u < length g0" "visited (g ! u)" "w \<in> set (succs g0 u)"
  shows "w < length g0 \<and> visited (g ! w)"
proof -
  from bfsInvD(6)[OF assms(1)] assms(2,3) have "u \<in> snd ` set ([]::(nat list \<times> nat) list) \<or>
      (\<forall>w \<in> set (succs g0 u). w \<noteq> b \<and> w < length g0 \<and> visited (g ! w))"
    by blast
  then have "\<forall>w \<in> set (succs g0 u). w \<noteq> b \<and> w < length g0 \<and> visited (g ! w)"
    by simp
  with assms(4) show ?thesis by blast
qed

lemma bfsInv_empty_visited:
  assumes "bfsInv g0 a b [] g"
  shows "u \<in> reachedWithin g0 a k \<Longrightarrow> u < length g0 \<and> visited (g ! u)"
proof (induction k arbitrary: u)
  case 0
  then show ?case using bfsInvD(8,9)[OF assms] by simp
next
  case (Suc k)
  from Suc.prems have "u \<in> reachedWithin g0 a k \<or>
      (\<exists>x \<in> reachedWithin g0 a k. u \<in> set (succs g0 x))"
    by simp
  then show ?case
  proof
    assume "u \<in> reachedWithin g0 a k"
    then show ?thesis by (rule Suc.IH)
  next
    assume "\<exists>x \<in> reachedWithin g0 a k. u \<in> set (succs g0 x)"
    then obtain x where x: "x \<in> reachedWithin g0 a k" "u \<in> set (succs g0 x)" by blast
    from Suc.IH[OF x(1)] have "x < length g0" "visited (g ! x)" by simp_all
    from bfsInv_empty_step[OF assms this x(2)] show ?thesis .
  qed
qed

lemma bfsInv_empty:
  assumes "bfsInv g0 a b [] g"
  shows "b \<notin> reachedWithin g0 a k"
proof
  assume "b \<in> reachedWithin g0 a k"
  from bfsInv_empty_visited[OF assms this] have "b < length g0" "visited (g ! b)" by simp_all
  with bfsInvD(7)[OF assms] show False by blast
qed

lemma bfsInv_pathInv:
  "bfsInv g0 a b q g \<Longrightarrow> pathInv g0 a b (q, g, [], INT_MAX)"
  unfolding bfsInv_def pathInv_def queued_def exactLevel_def by auto

lemma bfsInv_front:
  assumes "bfsInv g0 a b ((path, v) # q) g" "b \<in> dest ` set (adj (g ! v))"
  shows "exactLevel g0 a b (length path)"
proof -
  note I = bfsInvD[OF assms(1)]
  from I(2) have h: "path \<noteq> []" "v < length g0" "exactLevel g0 a v (length path - 1)"
    by simp_all
  from h(3) have hv: "v \<in> reachedWithin g0 a (length path - 1)" by (simp add: exactLevel_def)
  from I(5) have I3: "\<forall>u \<in> reachedWithin g0 a (length path - 1). u < length g0 \<and> visited (g ! u)"
    by simp
  have "adj (g ! v) = adj (g0 ! v)" using storeFrame_nth[OF I(1) h(2)] by simp
  with assms(2) h(2) have "b \<in> set (succs g0 v)" by (simp add: succs_def)
  with hv have "b \<in> reachedWithin g0 a (Suc (length path - 1))" by auto
  with h(1) have 1: "b \<in> reachedWithin g0 a (length path)" by simp
  from I3 I(7) have nb: "b \<notin> reachedWithin g0 a (length path - 1)" by blast
  have "\<forall>j < length path. b \<notin> reachedWithin g0 a j"
  proof (intro allI impI)
    fix j assume "j < length path"
    then have "j \<le> length path - 1" by simp
    from reachedWithin_mono[OF this, of g0 a] nb show "b \<notin> reachedWithin g0 a j" by blast
  qed
  with 1 show ?thesis by (simp add: exactLevel_def)
qed

lemma exactLevel_unique:
  "exactLevel g a v j \<Longrightarrow> exactLevel g a v k \<Longrightarrow> j = k"
  unfolding exactLevel_def by (meson linorder_neqE_nat)

text \<open>
  A scan that does not meet the target keeps the invariant: the new queue entries are
  exactly one level below the scanned vertex, and when the head of the queue moves to the
  next level every vertex of the level before has been scanned.
\<close>

lemma sorted_map_const: "sorted (map (\<lambda>w. c::nat) ws)"
  by (induction ws) auto

lemma sorted_hd_le: "sorted (map f xs) \<Longrightarrow> x \<in> set xs \<Longrightarrow> (f (hd xs) :: nat) \<le> f x"
  by (cases xs) auto

lemma wf_succs: "wf_graph g \<Longrightarrow> x < length g \<Longrightarrow> w \<in> set (succs g x) \<Longrightarrow> w < length g"
  by (auto simp: wf_graph_def succs_def)

lemma bfsInv_step:
  assumes wf: "wf_graph g0" and inv: "bfsInv g0 a b ((path, v) # q) g"
    and nb: "b \<notin> dest ` set (adj (g ! v))"
    and s: "scanFlights (Some b) (adj (g ! v)) path (q, g, sp, ss) = (q', g', sp', ss')"
  shows "bfsInv g0 a b q' g'"
proof -
  note I = bfsInvD[OF inv]
  from I(2) have h: "path \<noteq> []" "hd path = a" "v < length g0" "visited (g ! v)"
      "exactLevel g0 a v (length path - 1)"
    by simp_all
  from I(2) have Iq: "\<forall>x \<in> set q. fst x \<noteq> [] \<and> hd (fst x) = a \<and> snd x < length g0 \<and>
      visited (g ! snd x) \<and> exactLevel g0 a (snd x) (length (fst x) - 1)"
    by simp
  have lg: "length g = length g0" using I(1) by (metis length_map)
  have adj: "adj (g ! v) = adj (g0 ! v)" using storeFrame_nth[OF I(1) h(3)] by simp
  have sv: "set (succs g0 v) = dest ` set (adj (g ! v))"
    using adj h(3) by (simp add: succs_def)
  from I(3) have srt: "sorted (map (length \<circ> fst) q)" by simp
  from I(3) have ge: "\<forall>x \<in> set q. length path \<le> length (fst x)" by simp
  from I(4) have le: "\<forall>x \<in> set q. length (fst x) \<le> Suc (length path)" by simp
  from I(5) have I5: "\<forall>u \<in> reachedWithin g0 a (length path - 1). u < length g0 \<and> visited (g ! u)"
    by simp
  from scanFlights_noTarget[OF nb s] obtain ws where ws:
    "q' = q @ map (\<lambda>w. (path @ [w], w)) ws"
    "set ws \<subseteq> dest ` set (adj (g ! v))"
    "\<forall>w \<in> set ws. w < length g \<and> \<not> visited (g ! w)"
    "\<forall>u < length g. visited (g' ! u) \<longleftrightarrow> visited (g ! u) \<or> u \<in> set ws"
    "\<forall>e \<in> set (adj (g ! v)). dest e < length g \<longrightarrow> visited (g' ! dest e)"
    by blast
  have fr': "map storeFrame g' = map storeFrame g0"
    using scanFlights_frame[OF s] I(1) by simp
  have vis: "visited (g' ! u) \<longleftrightarrow> visited (g ! u) \<or> u \<in> set ws" if "u < length g0" for u
    using ws(4) lg that by simp
  have wsv: "w \<in> set (succs g0 v) \<and> w < length g0 \<and> \<not> visited (g ! w) \<and> w \<noteq> b"
    if "w \<in> set ws" for w
  proof -
    from that ws(2) have 1: "w \<in> dest ` set (adj (g ! v))" by blast
    with nb have 2: "w \<noteq> b" by blast
    from that ws(3) lg have "w < length g0" "\<not> visited (g ! w)" by simp_all
    with 1 2 sv show ?thesis by simp
  qed
  have lvl: "exactLevel g0 a w (length path)" if "w \<in> set ws" for w
  proof -
    from wsv[OF that] have w: "w \<in> set (succs g0 v)" "\<not> visited (g ! w)" by simp_all
    from h(5) have "v \<in> reachedWithin g0 a (length path - 1)" by (simp add: exactLevel_def)
    from reachedWithin_step[OF this w(1)] h(1) have 1: "w \<in> reachedWithin g0 a (length path)"
      by simp
    from I5 w(2) have n: "w \<notin> reachedWithin g0 a (length path - 1)" by blast
    have "\<forall>j < length path. w \<notin> reachedWithin g0 a j"
    proof (intro allI impI)
      fix j assume "j < length path"
      then have "j \<le> length path - 1" by simp
      from reachedWithin_mono[OF this, of g0 a] n show "w \<notin> reachedWithin g0 a j" by blast
    qed
    with 1 show ?thesis by (simp add: exactLevel_def)
  qed
  have mem: "x \<in> set q \<or> (\<exists>w \<in> set ws. x = (path @ [w], w))" if "x \<in> set q'" for x
    using that ws(1) by auto
  have N2: "\<forall>x \<in> set q'. fst x \<noteq> [] \<and> hd (fst x) = a \<and> snd x < length g0 \<and>
      visited (g' ! snd x) \<and> exactLevel g0 a (snd x) (length (fst x) - 1)"
  proof
    fix x assume "x \<in> set q'"
    from mem[OF this] show "fst x \<noteq> [] \<and> hd (fst x) = a \<and> snd x < length g0 \<and>
      visited (g' ! snd x) \<and> exactLevel g0 a (snd x) (length (fst x) - 1)"
    proof
      assume "x \<in> set q"
      with Iq have *: "fst x \<noteq> []" "hd (fst x) = a" "snd x < length g0" "visited (g ! snd x)"
        "exactLevel g0 a (snd x) (length (fst x) - 1)"
        by blast+
      from vis[OF *(3)] *(4) have "visited (g' ! snd x)" by simp
      with * show ?thesis by simp
    next
      assume "\<exists>w \<in> set ws. x = (path @ [w], w)"
      then obtain w where w: "w \<in> set ws" "x = (path @ [w], w)" by blast
      from wsv[OF w(1)] have wl: "w < length g0" by simp
      from vis[OF wl] w(1) have "visited (g' ! w)" by simp
      with lvl[OF w(1)] wl h(1,2) w(2) show ?thesis by simp
    qed
  qed
  have lens: "map (length \<circ> fst) q' = map (length \<circ> fst) q @ map (\<lambda>w. Suc (length path)) ws"
    using ws(1) by (simp add: comp_def)
  have N3: "sorted (map (length \<circ> fst) q')"
    unfolding lens using srt le by (auto simp: sorted_append sorted_map_const)
  have allle: "\<forall>x \<in> set q'. length (fst x) \<le> Suc (length path)"
  proof
    fix x assume "x \<in> set q'"
    from mem[OF this] le show "length (fst x) \<le> Suc (length path)" by auto
  qed
  have allge: "\<forall>x \<in> set q'. length path \<le> length (fst x)"
  proof
    fix x assume "x \<in> set q'"
    from mem[OF this] ge show "length path \<le> length (fst x)" by auto
  qed
  have N4: "\<forall>x \<in> set q'. length (fst x) \<le> Suc (length (fst (hd q')))"
  proof
    fix x assume x: "x \<in> set q'"
    then have "hd q' \<in> set q'" by (cases q') auto
    with allge have "length path \<le> length (fst (hd q'))" by blast
    moreover from allle x have "length (fst x) \<le> Suc (length path)" by blast
    ultimately show "length (fst x) \<le> Suc (length (fst (hd q')))" by simp
  qed
  have N5: "q' \<noteq> [] \<longrightarrow> (\<forall>u \<in> reachedWithin g0 a (length (fst (hd q')) - 1).
                     u < length g0 \<and> visited (g' ! u))"
  proof (intro impI ballI)
    fix u assume ne: "q' \<noteq> []" and u: "u \<in> reachedWithin g0 a (length (fst (hd q')) - 1)"
    let ?L = "length (fst (hd q'))"
    from ne have hdm: "hd q' \<in> set q'" by simp
    with allge have lo: "length path \<le> ?L" by blast
    from hdm allle have hi: "?L \<le> Suc (length path)" by blast
    show "u < length g0 \<and> visited (g' ! u)"
    proof (cases "?L = length path")
      case True
      with u I5 have *: "u < length g0" "visited (g ! u)" by simp_all
      from vis[OF *(1)] *(2) have "visited (g' ! u)" by simp
      with * show ?thesis by simp
    next
      case False
      with lo hi have L: "?L = Suc (length path)" by simp
      have qall: "\<forall>x \<in> set q. length (fst x) = Suc (length path)"
      proof
        fix x assume x: "x \<in> set q"
        then have "x \<in> set q'" using ws(1) by simp
        from sorted_hd_le[OF N3[unfolded comp_def] this] L have "Suc (length path) \<le> length (fst x)"
          by simp
        with le x show "length (fst x) = Suc (length path)" by fastforce
      qed
      from h(1) have "Suc (length path) - 1 = Suc (length path - 1)" by (cases path) simp_all
      with u L have "u \<in> reachedWithin g0 a (Suc (length path - 1))" by simp
      then have "u \<in> reachedWithin g0 a (length path - 1) \<or>
          (\<exists>x \<in> reachedWithin g0 a (length path - 1). u \<in> set (succs g0 x))"
        by simp
      then show ?thesis
      proof
        assume "u \<in> reachedWithin g0 a (length path - 1)"
        with I5 have *: "u < length g0" "visited (g ! u)" by blast+
        from vis[OF *(1)] *(2) have "visited (g' ! u)" by simp
        with * show ?thesis by simp
      next
        assume "\<exists>x \<in> reachedWithin g0 a (length path - 1). u \<in> set (succs g0 x)"
        then obtain x where x: "x \<in> reachedWithin g0 a (length path - 1)" "u \<in> set (succs g0 x)"
          by blast
        from I5 x(1) have xv: "x < length g0" "visited (g ! x)" by blast+
        from wf_succs[OF wf xv(1) x(2)] have ul: "u < length g0" .
        from I(6) xv have "x \<in> snd ` set ((path, v) # q) \<or>
            (\<forall>w \<in> set (succs g0 x). w \<noteq> b \<and> w < length g0 \<and> visited (g ! w))"
          by blast
        then consider (v) "x = v" | (q) y where "y \<in> set q" "x = snd y"
          | (closed) "\<forall>w \<in> set (succs g0 x). w \<noteq> b \<and> w < length g0 \<and> visited (g ! w)"
          by auto
        then show ?thesis
        proof cases
          case v
          with x(2) sv obtain e where e: "e \<in> set (adj (g ! v))" "u = dest e" by auto
          with ws(5) ul lg have "visited (g' ! u)" by simp
          with ul show ?thesis by simp
        next
          case q
          from Iq q(1) have "exactLevel g0 a (snd y) (length (fst y) - 1)" by blast
          with qall q have "exactLevel g0 a x (length path)" by simp
          moreover from h(1) have "length path - 1 < length path" by (cases path) simp_all
          ultimately have "x \<notin> reachedWithin g0 a (length path - 1)"
            by (simp add: exactLevel_def)
          with x(1) show ?thesis by simp
        next
          case closed
          with x(2) have "visited (g ! u)" by blast
          with vis[OF ul] ul show ?thesis by simp
        qed
      qed
    qed
  qed
  have N6: "\<forall>u < length g0. visited (g' ! u) \<longrightarrow>
        u \<in> snd ` set q' \<or>
        (\<forall>w \<in> set (succs g0 u). w \<noteq> b \<and> w < length g0 \<and> visited (g' ! w))"
  proof (intro allI impI)
    fix u assume ul: "u < length g0" and uv: "visited (g' ! u)"
    from vis[OF ul] uv consider (new) "u \<in> set ws" | (old) "visited (g ! u)" by blast
    then show "u \<in> snd ` set q' \<or>
        (\<forall>w \<in> set (succs g0 u). w \<noteq> b \<and> w < length g0 \<and> visited (g' ! w))"
    proof cases
      case new
      then have "(path @ [u], u) \<in> set q'" using ws(1) by simp
      then have "u \<in> snd ` set q'" by force
      then show ?thesis by simp
    next
      case old
      from I(6) ul old have "u \<in> snd ` set ((path, v) # q) \<or>
            (\<forall>w \<in> set (succs g0 u). w \<noteq> b \<and> w < length g0 \<and> visited (g ! w))"
        by blast
      then consider (v) "u = v" | (q) "u \<in> snd ` set q"
        | (closed) "\<forall>w \<in> set (succs g0 u). w \<noteq> b \<and> w < length g0 \<and> visited (g ! w)"
        by auto
      then show ?thesis
      proof cases
        case v
        have "\<forall>w \<in> set (succs g0 u). w \<noteq> b \<and> w < length g0 \<and> visited (g' ! w)"
        proof
          fix w assume w: "w \<in> set (succs g0 u)"
          from wf_succs[OF wf ul w] have wl: "w < length g0" .
          from w v sv obtain e where e: "e \<in> set (adj (g ! v))" "w = dest e" by auto
          with ws(5) wl lg have "visited (g' ! w)" by simp
          moreover from e nb have "w \<noteq> b" by auto
          ultimately show "w \<noteq> b \<and> w < length g0 \<and> visited (g' ! w)" using wl by simp
        qed
        then show ?thesis by simp
      next
        case q
        then have "u \<in> snd ` set q'" using ws(1) by auto
        then show ?thesis by simp
      next
        case closed
        have "\<forall>w \<in> set (succs g0 u). w \<noteq> b \<and> w < length g0 \<and> visited (g' ! w)"
        proof
          fix w assume "w \<in> set (succs g0 u)"
          with closed have *: "w \<noteq> b" "w < length g0" "visited (g ! w)" by blast+
          from vis[OF *(2)] *(3) have "visited (g' ! w)" by simp
          with * show "w \<noteq> b \<and> w < length g0 \<and> visited (g' ! w)" by simp
        qed
        then show ?thesis by simp
      qed
    qed
  qed
  have N7: "\<forall>u < length g0. visited (g' ! u) \<longrightarrow> u \<noteq> b"
  proof (intro allI impI)
    fix u assume ul: "u < length g0" and uv: "visited (g' ! u)"
    from vis[OF ul] uv consider (new) "u \<in> set ws" | (old) "visited (g ! u)" by blast
    then show "u \<noteq> b"
    proof cases
      case new
      from wsv[OF this] show ?thesis by simp
    next
      case old
      with I(7) ul show ?thesis by blast
    qed
  qed
  from vis[OF I(8)] I(9) have N9: "visited (g' ! a)" by simp
  from fr' N2 N3 N4 N5 N6 N7 I(8) N9 show ?thesis
    unfolding bfsInv_def by blast
qed

text \<open>
  Until the target is met nothing is collected; the scan that meets it first does so from
  a vertex at distance \<open>d - 1\<close>, which bounds \<open>smallestSize\<close> by \<open>d + 1\<close>, and no collected path
  can be shorter than the distance.
\<close>

lemma pathInv_tail:
  "pathInv g0 a b (x # q, g, sp, ss) \<Longrightarrow> pathInv g0 a b (q, g, sp, ss)"
  by (simp add: pathInv_def)

lemma pathLoop_bfs:
  assumes wf: "wf_graph g0" and d: "exactLevel g0 a b d"
  shows "bfsInv g0 a b q g \<Longrightarrow> sp = [] \<Longrightarrow> ss = INT_MAX \<Longrightarrow>
     (\<forall>p \<in> set (fst (pathLoop (Some b) q g sp ss)). length p = Suc d) \<and>
     (Suc d < INT_MAX \<longrightarrow> fst (pathLoop (Some b) q g sp ss) \<noteq> [])"
proof (induction "Some b" q g sp ss rule: pathLoop.induct)
  case (1 g sp ss)
  from bfsInv_empty[OF "1.prems"(1), of d] d show ?case by (simp add: exactLevel_def)
next
  case (2 path v q g sp ss)
  obtain q' g' sp' ss' where
    s: "scanFlights (Some b) (adj (g ! v)) path (q, g, sp, ss) = (q', g', sp', ss')"
    by (metis prod_cases4)
  have r: "pathLoop (Some b) ((path, v) # q) g sp ss = pathLoop (Some b) q' g' sp' ss'"
    using s by simp
  let ?ps = "fst (pathLoop (Some b) q' g' sp' ss')"
  have "(\<forall>p \<in> set ?ps. length p = Suc d) \<and> (Suc d < INT_MAX \<longrightarrow> ?ps \<noteq> [])"
  proof (cases "b \<in> dest ` set (adj (g ! v))")
    case True
    from bfsInv_front[OF "2.prems"(1) True] d have dl: "d = length path"
      by (rule exactLevel_unique[symmetric])
    from scanFlights_hit[OF True s] have hit: "ss' \<le> Suc (length path)" .
    note I = bfsInvD[OF "2.prems"(1)]
    from I(2) have p: "path \<noteq> []" "hd path = a" "v < length g0"
      "exactLevel g0 a v (length path - 1)"
      by simp_all
    then have pv: "v \<in> reachedWithin g0 a (length path - 1)" by (simp add: exactLevel_def)
    have adj: "adj (g ! v) = adj (g0 ! v)" using storeFrame_nth[OF I(1) p(3)] by simp
    from bfsInv_pathInv[OF "2.prems"(1)] "2.prems"(2,3)
    have "pathInv g0 a b ((path, v) # q, g, sp, ss)" by simp
    then have "pathInv g0 a b (q, g, sp, ss)" by (rule pathInv_tail)
    from pathInv_scan[OF this p(1,2,3) pv, of "adj (g ! v)"] adj s
    have "pathInv g0 a b (q', g', sp', ss')" by simp
    from pathInv_loop_le[OF this] obtain ssf where ssf: "ssf \<le> ss'"
      "pathInv g0 a b ([], snd (pathLoop (Some b) q' g' sp' ss'), ?ps, ssf)"
      by blast
    from ssf(2) have col: "\<forall>p \<in> set ?ps. collected g0 a b ssf p"
      and ne: "ssf < INT_MAX \<longrightarrow> ?ps \<noteq> []"
      by (simp_all add: pathInv_def)
    have "\<forall>p \<in> set ?ps. length p = Suc d"
    proof
      fix p assume "p \<in> set ?ps"
      with col have "collected g0 a b ssf p" by blast
      then have c: "length p = ssf" "b \<in> reachedWithin g0 a (length p - 1)" "2 \<le> length p"
        unfolding collected_def by blast+
      from d c(2) have "\<not> length p - 1 < d" by (auto simp: exactLevel_def)
      with c(1,3) ssf(1) hit dl show "length p = Suc d" by linarith
    qed
    moreover have "Suc d < INT_MAX \<longrightarrow> ?ps \<noteq> []"
    proof
      assume "Suc d < INT_MAX"
      with ssf(1) hit dl have "ssf < INT_MAX" by linarith
      with ne show "?ps \<noteq> []" by blast
    qed
    ultimately show ?thesis by blast
  next
    case False
    from bfsInv_step[OF wf "2.prems"(1) False s] have inv': "bfsInv g0 a b q' g'" .
    from scanFlights_noTarget_sp[OF False s] "2.prems"(2,3)
    have e: "sp' = []" "ss' = INT_MAX" by simp_all
    from "2.hyps"[OF s[symmetric] refl refl inv' e] show ?thesis .
  qed
  then show ?case unfolding r .
qed

text \<open>
  The level search finds every reachable target: the levels are sets of vertices of the
  store that grow strictly until they stop growing for good.
\<close>

lemma finite_reachedWithin: "finite (reachedWithin g a k)"
  by (induction k) simp_all

lemma reachedWithin_bounded:
  "wf_graph g \<Longrightarrow> a < length g \<Longrightarrow> reachedWithin g a k \<subseteq> {..<length g}"
proof (induction k)
  case 0
  then show ?case by simp
next
  case (Suc k)
  then have "reachedWithin g a k \<subseteq> {..<length g}" by simp
  with Suc.prems(1) show ?case by (auto dest: wf_succs)
qed

lemma reachedWithin_stable:
  "reachedWithin g a (Suc k) = reachedWithin g a k \<Longrightarrow>
   reachedWithin g a (k + j) = reachedWithin g a k"
proof (induction j)
  case 0
  then show ?case by simp
next
  case (Suc j)
  then have "reachedWithin g a (k + j) = reachedWithin g a k" by simp
  then have "reachedWithin g a (Suc (k + j)) = reachedWithin g a (Suc k)" by simp
  with Suc.prems show ?case by simp
qed

lemma reachedWithin_card:
  "\<forall>j < k. reachedWithin g a (Suc j) \<noteq> reachedWithin g a j \<Longrightarrow>
   Suc k \<le> card (reachedWithin g a k)"
proof (induction k)
  case 0
  then show ?case by simp
next
  case (Suc k)
  then have "Suc k \<le> card (reachedWithin g a k)" by simp
  moreover from Suc.prems have "reachedWithin g a k \<subset> reachedWithin g a (Suc k)"
    using reachedWithin_mono_Suc[of g a k] by blast
  then have "card (reachedWithin g a k) < card (reachedWithin g a (Suc k))"
    by (intro psubset_card_mono finite_reachedWithin)
  ultimately show ?case by linarith
qed

text \<open>The levels stop growing within \<open>|V|\<close> steps.\<close>

lemma reachedWithin_saturated:
  assumes "wf_graph g" "a < length g"
  shows "reachedWithin g a k \<subseteq> reachedWithin g a (length g)"
proof -
  have "\<not> (\<forall>j < length g. reachedWithin g a (Suc j) \<noteq> reachedWithin g a j)"
  proof
    assume "\<forall>j < length g. reachedWithin g a (Suc j) \<noteq> reachedWithin g a j"
    from reachedWithin_card[OF this] have "Suc (length g) \<le> card (reachedWithin g a (length g))" .
    moreover have "card (reachedWithin g a (length g)) \<le> card {..<length g}"
      by (intro card_mono reachedWithin_bounded[OF assms]) simp
    ultimately show False by simp
  qed
  then obtain j where j: "j < length g" "reachedWithin g a (Suc j) = reachedWithin g a j"
    by blast
  show ?thesis
  proof (cases "k \<le> length g")
    case True
    then show ?thesis by (rule reachedWithin_mono)
  next
    case False
    with j(1) have "k = j + (k - j)" by simp
    with reachedWithin_stable[OF j(2), of "k - j"] have "reachedWithin g a k = reachedWithin g a j"
      by simp
    moreover have "reachedWithin g a j \<subseteq> reachedWithin g a (length g)"
      using j(1) by (intro reachedWithin_mono) simp
    ultimately show ?thesis by simp
  qed
qed

lemma levelSearch_complete:
  "b \<in> reachedWithin g a (k + n) \<Longrightarrow> \<exists>d. levelSearch g b (reachedWithin g a k) k n = Some d"
proof (induction n arbitrary: k)
  case 0
  then show ?case by simp
next
  case (Suc n)
  show ?case
  proof (cases "b \<in> reachedWithin g a k")
    case True
    then show ?thesis by simp
  next
    case False
    from Suc.prems have "b \<in> reachedWithin g a (Suc k + n)" by simp
    from Suc.IH[OF this] False show ?thesis by simp
  qed
qed

lemma hopDistance_complete:
  assumes "wf_graph g" "a < length g" "b \<in> reachedWithin g a k"
  shows "\<exists>d. hopDistance g a b = Some d"
proof -
  from reachedWithin_saturated[OF assms(1,2), of k] assms(3)
  have "b \<in> reachedWithin g a (0 + length g)" by auto
  from levelSearch_complete[OF this] show ?thesis by (simp add: hopDistance_def)
qed

section \<open>Distance lookup\<close>

lemma firstDistance_none:
  "t < length g \<Longrightarrow> \<forall>e \<in> set es. \<not> airportEq (info (g ! dest e)) (info (g ! t)) \<Longrightarrow>
   firstDistance g (Some t) es = Inr 0"
  by (induction es) auto

lemma uniqueCodes_eq:
  "uniqueCodes g \<Longrightarrow> i < length g \<Longrightarrow> j < length g \<Longrightarrow>
   airportEq (info (g ! i)) (info (g ! j)) \<Longrightarrow> i = j"
  unfolding uniqueCodes_def airportEq_def
  by (metis (no_types, lifting) comp_apply distinct_conv_nth length_map nth_map)


text \<open>
  C10.  For vertices \<open>s\<close> and \<open>t\<close> of a well-formed store with unique codes, when no edge
  of \<open>s\<close> leads to \<open>t\<close>, \<open>getDistanceBetweenAirports\<close> returns \<open>0.0\<close> (and no error): the
  value a zero-distance edge would give.
\<close>

theorem getDistance_no_edge:
  assumes "wf_graph g" "uniqueCodes g" "s < length g" "t < length g"
    and "t \<notin> dest ` set (adj (g ! s))"
  shows "getDistanceBetweenAirports g (Some s) (Some t) = Inr 0"
proof -
  have "\<forall>e \<in> set (adj (g ! s)). \<not> airportEq (info (g ! dest e)) (info (g ! t))"
  proof
    fix e assume e: "e \<in> set (adj (g ! s))"
    with assms(1,3) have "dest e < length g"
      unfolding wf_graph_def by (meson nth_mem)
    moreover from assms(5) e have "dest e \<noteq> t" by auto
    ultimately show "\<not> airportEq (info (g ! dest e)) (info (g ! t))"
      using assms(2,4) uniqueCodes_eq by blast
  qed
  with assms(3,4) show ?thesis
    by (simp add: getDistanceBetweenAirports_def firstDistance_none)
qed

theorem getDistance_no_edge_witness:
  "wf_graph exAB \<and> uniqueCodes exAB \<and> (0::nat) < length exAB \<and> (1::nat) < length exAB \<and>
   1 \<notin> dest ` set (adj (exAB ! 0)) \<and>
   getDistanceBetweenAirports exAB (Some 0) (Some 1) = Inr 0"
proof -
  have h: "wf_graph exAB" "uniqueCodes exAB" "(0::nat) < length exAB" "(1::nat) < length exAB"
    "1 \<notin> dest ` set (adj (exAB ! 0))"
    by (simp_all add: wf_graph_def uniqueCodes_def exAB_def mkVertex_def tempAirport_def)
  from getDistance_no_edge[OF h] h show ?thesis by simp
qed

lemma getDistance_zero_edge:
  "s < length g \<Longrightarrow> t < length g \<Longrightarrow> adj (g ! s) = [newEdge t 0] \<Longrightarrow>
   getDistanceBetweenAirports g (Some s) (Some t) = Inr 0"
  by (simp add: getDistanceBetweenAirports_def newEdge_def airportEq_def)

section \<open>Edge insertion and the one-edge-per-pair invariant\<close>

lemma findVertexFrom_code:
  "code a = code b \<Longrightarrow> findVertexFrom vs i a = findVertexFrom vs i b"
  by (induction vs arbitrary: i) (auto simp: airportEq_def)

lemma findVertexFrom_Some:
  "findVertexFrom vs i a = Some j \<Longrightarrow> i \<le> j \<and> j - i < length vs \<and> code (info (vs ! (j - i))) = code a"
proof (induction vs arbitrary: i)
  case Nil then show ?case by simp
next
  case (Cons v vs)
  show ?case
  proof (cases "airportEq (info v) a")
    case True with Cons.prems show ?thesis by (auto simp: airportEq_def)
  next
    case False
    with Cons.prems have "findVertexFrom vs (Suc i) a = Some j" by simp
    from Cons.IH[OF this] show ?thesis
      by (auto simp: Suc_diff_Suc less_eq_Suc_le nth_Cons')
  qed
qed

lemma findVertex_Some:
  "findVertex g a = Some j \<Longrightarrow> j < length g \<and> code (info (g ! j)) = code a"
  using findVertexFrom_Some[of g 0 a j] by (simp add: findVertex_def)

lemma findVertex_info:
  "findVertex g a = Some j \<Longrightarrow> findVertex g (info (g ! j)) = Some j"
  using findVertex_Some[of g a j] findVertexFrom_code[of "info (g ! j)" a g 0]
  by (simp add: findVertex_def)

lemma addAirlineToFirst_dest:
  "map dest (snd (addAirlineToFirst g t al es)) = map dest es"
  by (induction es) (auto simp: addAirline_def split: prod.splits)

lemma addAirlineToFirst_notfound:
  "fst (addAirlineToFirst g t al es) = False \<Longrightarrow>
   \<forall>e \<in> set es. \<not> airportEq (info (g ! dest e)) t"
  by (induction es) (auto split: prod.splits if_splits)

lemma map_adj_update:
  "adj x = adj (g ! i) \<Longrightarrow> map adj (g[i := x]) = map adj g"
  by (rule map_update_same)

lemma noParallelEdges_adj:
  "noParallelEdges g \<longleftrightarrow> (\<forall>es \<in> set (map adj g). distinct (map dest es))"
  by (auto simp: noParallelEdges_def)

lemma map_adj_countFlight: "map adj (countFlight s t g) = map adj g"
  by (simp add: countFlight_def Let_def map_adj_update)

lemma noParallelEdges_set_adj:
  assumes "noParallelEdges g" "distinct (map dest es)"
  shows "noParallelEdges (g[s := (g ! s)\<lparr>adj := es\<rparr>])"
  using assms unfolding noParallelEdges_def
  by (auto dest!: set_update_subset_insert[THEN subsetD])


text \<open>
  C2 (as stated).  \<open>Graph::addEdge\<close> appends without looking for an existing edge: a
  second insertion for the same ordered pair succeeds and leaves two parallel edges.
\<close>

theorem addEdge_parallel_counterexample:
  "noParallelEdges (snd (addEdge exAB (tempAirport ''AAA'') (tempAirport ''BBB'') 1)) \<and>
   fst (addEdge (snd (addEdge exAB (tempAirport ''AAA'') (tempAirport ''BBB'') 1))
          (tempAirport ''AAA'') (tempAirport ''BBB'') 1) \<and>
   \<not> noParallelEdges
       (snd (addEdge (snd (addEdge exAB (tempAirport ''AAA'') (tempAirport ''BBB'') 1))
          (tempAirport ''AAA'') (tempAirport ''BBB'') 1))"
  by (simp add: addEdge_def findVertex_def airportEq_def exAB_def mkVertex_def tempAirport_def
      noParallelEdges_def vertexAddEdge_def newEdge_def)

text \<open>
  C2 (amended).  The invariant is kept by the caller: one record of the flights file,
  processed by \<open>parseFlights\<close>, adds the airline to the existing edge of the pair and calls
  \<open>addEdge\<close> only when there is none, so a store without parallel edges stays so.
\<close>

theorem parseFlightLine_noParallelEdges:
  assumes inv: "noParallelEdges g"
    and s: "findVertex g (tempAirport src) = Some s"
    and t: "findVertex g (tempAirport tgt) = Some t"
  shows "\<exists>g'. parseFlightLine distanceOf airlinesInfo g (src, tgt, ac) = Inr g' \<and> noParallelEdges g'"
proof -
  let ?al = "getAirline airlinesInfo ac"
  let ?ti = "info (g ! t)"
  from s t have sl: "s < length g" and tl: "t < length g"
    using findVertex_Some by blast+
  from inv sl have ds: "distinct (map dest (adj (g ! s)))"
    unfolding noParallelEdges_def by simp
  obtain found es where fe: "addAirlineToFirst g ?ti ?al (adj (g ! s)) = (found, es)"
    by fastforce
  have des: "map dest es = map dest (adj (g ! s))"
    using addAirlineToFirst_dest[of g ?ti ?al "adj (g ! s)"] fe by simp
  show ?thesis
  proof (cases found)
    case True
    have "noParallelEdges (countFlight s t (g[s := (g ! s)\<lparr>adj := es\<rparr>]))"
      using noParallelEdges_set_adj[OF inv, of es s] des ds
      by (simp add: noParallelEdges_adj map_adj_countFlight)
    with True s t fe show ?thesis
      by (simp add: parseFlightLine_def Let_def)
  next
    case False
    let ?w = "distanceOf (info (g ! s)) ?ti"
    let ?g1 = "g[s := vertexAddEdge (g ! s) t ?w]"
    have ae: "addEdge g (info (g ! s)) ?ti ?w = (True, ?g1)"
      using findVertex_info[OF s] findVertex_info[OF t] by (simp add: addEdge_def)
    have nf: "\<forall>e \<in> set (adj (g ! s)). \<not> airportEq (info (g ! dest e)) ?ti"
      using addAirlineToFirst_notfound[of g ?ti ?al "adj (g ! s)"] fe False by simp
    have "t \<notin> dest ` set (adj (g ! s))"
      using nf by (auto simp: airportEq_def)
    with ds have d1: "distinct (map dest (adj (?g1 ! s)))"
      using sl by (simp add: vertexAddEdge_def newEdge_def)
    have inv1: "noParallelEdges ?g1"
      using noParallelEdges_set_adj[OF inv, of "adj (g ! s) @ [newEdge t ?w]" s] ds
        \<open>t \<notin> dest ` set (adj (g ! s))\<close>
      by (simp add: vertexAddEdge_def newEdge_def)
    obtain found1 es1 where fe1: "addAirlineToFirst ?g1 ?ti ?al (adj (?g1 ! s)) = (found1, es1)"
      by fastforce
    have des1: "map dest es1 = map dest (adj (?g1 ! s))"
      using addAirlineToFirst_dest[of ?g1 ?ti ?al "adj (?g1 ! s)"] fe1 by simp
    have "noParallelEdges (countFlight s t (?g1[s := (?g1 ! s)\<lparr>adj := es1\<rparr>]))"
      using noParallelEdges_set_adj[OF inv1, of es1 s] des1 d1
      by (simp add: noParallelEdges_adj map_adj_countFlight)
    with False s t fe ae fe1 show ?thesis
      by (simp add: parseFlightLine_def Let_def)
  qed
qed


theorem parseFlightLine_noParallelEdges_witness:
  "noParallelEdges exAB \<and> findVertex exAB (tempAirport ''AAA'') = Some 0 \<and>
   findVertex exAB (tempAirport ''BBB'') = Some 1 \<and>
   (\<exists>g'. parseFlightLine (\<lambda>a b. 1) [] exAB (''AAA'', ''BBB'', ''TAP'') = Inr g' \<and>
         noParallelEdges g')"
proof -
  have h: "noParallelEdges exAB" "findVertex exAB (tempAirport ''AAA'') = Some 0"
    "findVertex exAB (tempAirport ''BBB'') = Some 1"
    by (simp_all add: noParallelEdges_def findVertex_def airportEq_def exAB_def mkVertex_def
        tempAirport_def)
  from parseFlightLine_noParallelEdges[OF h] h show ?thesis by simp
qed

section \<open>Top-K airports by traffic\<close>

lemma topKLoop_tail:
  "k \<le> i \<Longrightarrow> topKLoop k vs i l = map entry (takeWhile (\<lambda>v. totalFlights v = l) vs)"
  by (induction vs arbitrary: i) (auto simp: Let_def entry_def)

lemma topKLoop_head:
  "i < k \<Longrightarrow> nat (k - i) \<le> length vs \<Longrightarrow>
   topKLoop k vs i l =
     map entry (take (nat (k - i)) vs @
       takeWhile (\<lambda>v. totalFlights v = totalFlights (vs ! (nat (k - i) - 1))) (drop (nat (k - i)) vs))"
proof (induction vs arbitrary: i l)
  case Nil
  then show ?case by simp
next
  case (Cons v vs)
  show ?case
  proof (cases "i + 1 < k")
    case True
    then have n: "nat (k - i) = Suc (nat (k - (i + 1)))" by simp
    with Cons.prems have "nat (k - (i + 1)) \<le> length vs" by simp
    from Cons.IH[OF True this, of "totalFlights v"] True n Cons.prems(1)
    show ?thesis by (simp add: Let_def entry_def)
  next
    case False
    with Cons.prems have n: "nat (k - i) = 1" and ki: "k \<le> i + 1" by simp_all
    show ?thesis using Cons.prems(1) n topKLoop_tail[OF ki, of vs "totalFlights v"]
      by (simp add: Let_def entry_def)
  qed
qed

lemma takeWhile_eq_filter_sorted:
  "sorted_wrt (\<ge>) (map f xs) \<Longrightarrow> \<forall>x \<in> set xs. f x \<le> (c::int) \<Longrightarrow>
   takeWhile (\<lambda>x. f x = c) xs = filter (\<lambda>x. f x = c) xs"
proof (induction xs)
  case Nil then show ?case by simp
next
  case (Cons x xs)
  show ?case
  proof (cases "f x = c")
    case True with Cons show ?thesis by simp
  next
    case False
    with Cons.prems have "f x < c" by auto
    with Cons.prems have "\<forall>y \<in> set xs. f y \<noteq> c" by auto
    then have "filter (\<lambda>x. f x = c) xs = []" by (simp add: filter_empty_conv)
    with False show ?thesis by simp
  qed
qed

lemma sortByTraffic_outcome: "sortOutcome vs (sortByTraffic vs)"
proof -
  have "sorted (map (\<lambda>v. - totalFlights v) (sortByTraffic vs))"
    unfolding sortByTraffic_def by simp
  then have "sorted_wrt (\<lambda>a1 a2. \<not> totalFlights a1 < totalFlights a2) (sortByTraffic vs)"
    by (simp add: sorted_wrt_map sorted_map not_less)
  moreover have "mset (sortByTraffic vs) = mset vs"
    unfolding sortByTraffic_def by simp
  ultimately show ?thesis by (simp add: sortOutcome_def)
qed

lemma sortOutcome_sorted:
  "sortOutcome vs S \<Longrightarrow> sorted_wrt (\<ge>) (map totalFlights S)"
  by (simp add: sortOutcome_def sorted_wrt_map not_less)

text \<open>The totals are in the same order after every sort that \<open>std::sort\<close> may perform.\<close>

lemma sortOutcome_totals:
  assumes "sortOutcome vs S"
  shows "map totalFlights S = map totalFlights (sortByTraffic vs)"
proof -
  let ?f = "\<lambda>v. - totalFlights v"
  have srt: "sorted (map ?f T)" if "sortOutcome vs T" for T
    using that by (simp add: sortOutcome_def sorted_wrt_map sorted_map not_less)
  have ms: "mset (map ?f T) = mset (map ?f vs)" if "sortOutcome vs T" for T
    using that by (simp add: sortOutcome_def)
  have "sort (map ?f vs) = map ?f S"
    using properties_for_sort[OF ms[OF assms] srt[OF assms]] .
  moreover have "sort (map ?f vs) = map ?f (sortByTraffic vs)"
    using properties_for_sort[OF ms[OF sortByTraffic_outcome] srt[OF sortByTraffic_outcome]] .
  ultimately have "map ?f S = map ?f (sortByTraffic vs)" by simp
  then have "map uminus (map ?f S) = map uminus (map ?f (sortByTraffic vs))" by simp
  then show ?thesis by (simp add: comp_def)
qed

lemma topKLoop_values:
  "map totalFlights vs = map totalFlights vs' \<Longrightarrow>
   map snd (topKLoop k vs i l) = map snd (topKLoop k vs' i l)"
proof (induction vs arbitrary: vs' i l)
  case Nil
  then show ?case by simp
next
  case (Cons v vs)
  from Cons.prems obtain w ws where w: "vs' = w # ws" "totalFlights w = totalFlights v"
    "map totalFlights vs = map totalFlights ws"
    by (cases vs') auto
  from Cons.IH[OF w(3)] w(1,2) show ?case by (simp add: Let_def)
qed

text \<open>
  What the loop does in general, for \<open>1 \<le> k \<le> |V|\<close> and every outcome of the sort: the
  result is the first \<open>k\<close> airports of the sorted vector, extended by the airports that
  follow with the total of the \<open>k\<close>-th one; it is in descending order and holds exactly the
  airports whose total is at least that of the \<open>k\<close>-th.
\<close>

lemma searchTopK_rule:
  assumes k: "1 \<le> k" "nat k \<le> length g" and o: "sortOutcome g (srt g)"
  shows "(let S = srt g; kth = totalFlights (S ! (nat k - 1));
              res = searchTopKAirportGreatestAirTrafficCapacity srt g k
          in res = map entry (take (nat k) S @
                     takeWhile (\<lambda>v. totalFlights v = kth) (drop (nat k) S)) \<and>
             sorted_wrt (\<ge>) (map snd res) \<and>
             set res = entry ` {v \<in> set g. kth \<le> totalFlights v})"
proof -
  let ?S = "srt g"
  let ?n = "nat k"
  let ?kth = "totalFlights (?S ! (?n - 1))"
  let ?tie = "\<lambda>v. totalFlights v = ?kth"
  let ?res = "searchTopKAirportGreatestAirTrafficCapacity srt g k"
  have ms: "mset ?S = mset g" using o by (simp add: sortOutcome_def)
  have len: "length ?S = length g"
    using ms by (metis size_mset)
  have srt: "sorted_wrt (\<ge>) (map totalFlights ?S)" using o by (rule sortOutcome_sorted)
  have res: "?res = map entry (take ?n ?S @ takeWhile ?tie (drop ?n ?S))"
    using topKLoop_head[of 0 k ?S 0] k len
    by (simp add: searchTopKAirportGreatestAirTrafficCapacity_def)
  have n1: "?n - 1 < length ?S" "0 < ?n" using k len by simp_all
  have ge_take: "\<forall>v \<in> set (take ?n ?S). ?kth \<le> totalFlights v"
  proof
    fix v assume "v \<in> set (take ?n ?S)"
    then obtain j where j: "j < ?n" "j < length ?S" "v = ?S ! j"
      by (auto simp: in_set_conv_nth)
    show "?kth \<le> totalFlights v"
    proof (cases "j = ?n - 1")
      case True with j show ?thesis by simp
    next
      case False
      with j have "j < ?n - 1" by simp
      with srt n1 j show ?thesis
        by (simp add: sorted_wrt_iff_nth_less)
    qed
  qed
  have le_drop: "\<forall>v \<in> set (drop ?n ?S). totalFlights v \<le> ?kth"
  proof
    fix v assume "v \<in> set (drop ?n ?S)"
    then obtain i where "i < length (drop ?n ?S)" "v = drop ?n ?S ! i"
      by (metis in_set_conv_nth)
    then have j: "?n + i < length ?S" "v = ?S ! (?n + i)"
      by simp_all
    from n1 have "?n - 1 < ?n + i" by simp
    with srt j show "totalFlights v \<le> ?kth"
      by (simp add: sorted_wrt_iff_nth_less)
  qed
  have sdrop: "sorted_wrt (\<ge>) (map totalFlights (drop ?n ?S))"
    using srt by (simp add: sorted_wrt_drop flip: drop_map)
  have tw: "takeWhile ?tie (drop ?n ?S) = filter ?tie (drop ?n ?S)"
    using takeWhile_eq_filter_sorted[OF sdrop le_drop] .
  have sres: "sorted_wrt (\<ge>) (map snd ?res)"
  proof -
    have "map snd ?res = map totalFlights (take ?n ?S) @
            map totalFlights (takeWhile ?tie (drop ?n ?S))"
      by (simp add: res entry_def comp_def)
    moreover have "sorted_wrt (\<ge>) (map totalFlights (take ?n ?S))"
      using srt by (simp add: sorted_wrt_take flip: take_map)
    moreover have "sorted_wrt (\<ge>) (map totalFlights (takeWhile ?tie (drop ?n ?S)))"
      unfolding tw using sdrop by (simp add: sorted_wrt_map sorted_wrt_filter)
    moreover have "\<forall>x \<in> set (take ?n ?S). \<forall>y \<in> set (takeWhile ?tie (drop ?n ?S)).
        totalFlights y \<le> totalFlights x"
      using ge_take unfolding tw by auto
    ultimately show ?thesis
      by (simp add: sorted_wrt_append)
  qed
  have sset: "set ?S = set g"
    using ms by (metis set_mset_mset)
  have "set (take ?n ?S @ takeWhile ?tie (drop ?n ?S)) = {v \<in> set g. ?kth \<le> totalFlights v}"
  proof -
    have "set ?S = set (take ?n ?S) \<union> set (drop ?n ?S)"
      by (metis append_take_drop_id set_append)
    with ge_take le_drop sset show ?thesis
      unfolding tw by fastforce
  qed
  then have "set ?res = entry ` {v \<in> set g. ?kth \<le> totalFlights v}"
    unfolding res by (simp only: set_map)
  with res sres show ?thesis by (simp add: Let_def)
qed

lemma exTraffic_totals: "map totalFlights exTraffic = [8, 10, 5, 10, 8]"
  by (simp add: exTraffic_def mkVertex_def totalFlights_def int32_def)



section \<open>Bounded-hop reachable destinations\<close>

lemma insertDestinations_eq:
  "insertDestinations ext g es res = res \<union> (\<lambda>e. ext (g ! dest e)) ` set es"
  unfolding insertDestinations_def
  by (induction es arbitrary: res) auto

lemma enqueueUnvisited_queue:
  "enqueueUnvisited mk es (q, g) = (q', g') \<Longrightarrow> set q' \<subseteq> set q \<union> range mk"
proof (induction es arbitrary: q g)
  case Nil
  then show ?case by simp
next
  case (Cons e es)
  show ?case
  proof (cases "isUnvisited g (dest e)")
    case True
    with Cons.prems Cons.IH[of "q @ [mk (dest e)]" "markVisited g (dest e)"]
    show ?thesis by auto
  next
    case False
    with Cons show ?thesis by simp
  qed
qed

lemma reachableLoop_mono:
  "x \<le> y \<Longrightarrow> rx \<subseteq> ry \<Longrightarrow>
   fst (reachableLoop x ext q g rx) \<subseteq> fst (reachableLoop y ext q g ry)"
proof (induction x ext q g rx arbitrary: ry rule: reachableLoop.induct)
  case (1 layOvers ext g res)
  then show ?case by simp
next
  case (2 layOvers ext a stop q g res)
  obtain q' g' where e: "enqueueUnvisited (\<lambda>d. (d, stop + 1)) (adj (g ! a)) (q, g) = (q', g')"
    by fastforce
  let ?rx = "if stop \<le> layOvers then insertDestinations ext g (adj (g ! a)) res else res"
  let ?ry = "if stop \<le> y then insertDestinations ext g (adj (g ! a)) ry else ry"
  have sub: "?rx \<subseteq> ?ry"
    using "2.prems" by (auto simp: insertDestinations_eq)
  from "2.IH"[OF refl e[symmetric] "2.prems"(1) sub] e show ?case
    by (simp add: Let_def)
qed

lemma reachableLoop_finite:
  "finite res \<Longrightarrow> finite (fst (reachableLoop x ext q g res))"
proof (induction x ext q g res rule: reachableLoop.induct)
  case (1 layOvers ext g res)
  then show ?case by simp
next
  case (2 layOvers ext a stop q g res)
  obtain q' g' where e: "enqueueUnvisited (\<lambda>d. (d, stop + 1)) (adj (g ! a)) (q, g) = (q', g')"
    by fastforce
  let ?rx = "if stop \<le> layOvers then insertDestinations ext g (adj (g ! a)) res else res"
  have "finite ?rx" using "2.prems" by (simp add: insertDestinations_eq)
  from "2.IH"[OF refl e[symmetric] this] e show ?case
    by (simp add: Let_def)
qed

lemma reachableLoop_beyond:
  "\<forall>(v, stop) \<in> set q. layOvers < stop \<Longrightarrow> fst (reachableLoop layOvers ext q g res) = res"
proof (induction layOvers ext q g res rule: reachableLoop.induct)
  case (1 layOvers ext g res)
  then show ?case by simp
next
  case (2 layOvers ext a stop q g res)
  obtain q' g' where e: "enqueueUnvisited (\<lambda>d. (d, stop + 1)) (adj (g ! a)) (q, g) = (q', g')"
    by fastforce
  from "2.prems" have s: "layOvers < stop" by simp
  have "\<forall>(v, stop') \<in> set q'. layOvers < stop'"
    using enqueueUnvisited_queue[OF e] "2.prems" s by fastforce
  from "2.IH"[OF refl e[symmetric] this] e s show ?case
    by (simp add: Let_def)
qed

lemma reachable_Inr:
  "a < length g \<Longrightarrow>
   searchNumberOfReachableDestinationsInXStopsFromAirport g (Some a) x ext =
     Inr (int (card (fst (reachableLoop x ext [(a, 0)] (markVisited (resetVisited g) a) {}))),
          snd (reachableLoop x ext [(a, 0)] (markVisited (resetVisited g) a) {}))"
  by (simp add: searchNumberOfReachableDestinationsInXStopsFromAirport_def split: prod.splits)

text \<open>
  C4.  For a vertex \<open>a\<close> of the store: raising the layover budget never lowers the count
  of reachable destinations (whatever attribute is counted); and when the edges of \<open>a\<close>
  lead exactly to two airports \<open>b\<close> and \<open>c\<close> with different codes, the number of airports
  reachable with no layover is 2.
\<close>

theorem reachableCount_monotone:
  assumes a: "a < length g"
  shows "(x \<le> y \<longrightarrow>
           (\<exists>cx gx cy gy.
              searchNumberOfReachableDestinationsInXStopsFromAirport g (Some a) x ext = Inr (cx, gx) \<and>
              searchNumberOfReachableDestinationsInXStopsFromAirport g (Some a) y ext = Inr (cy, gy) \<and>
              cx \<le> cy)) \<and>
         (dest ` set (adj (g ! a)) = {b, c} \<and> b < length g \<and> c < length g \<and>
          code (info (g ! b)) \<noteq> code (info (g ! c)) \<longrightarrow>
           (\<exists>g'. searchNumberOfReachableAirportsInXStopsFromAirport g (Some a) 0 = Inr (2, g')))"
proof (intro conjI impI)
  let ?g1 = "markVisited (resetVisited g) a"
  assume xy: "x \<le> y"
  have "fst (reachableLoop x ext [(a, 0)] ?g1 {}) \<subseteq> fst (reachableLoop y ext [(a, 0)] ?g1 {})"
    by (rule reachableLoop_mono[OF xy]) simp
  moreover have "finite (fst (reachableLoop y ext [(a, 0)] ?g1 {}))"
    by (rule reachableLoop_finite) simp
  ultimately have "card (fst (reachableLoop x ext [(a, 0)] ?g1 {}))
      \<le> card (fst (reachableLoop y ext [(a, 0)] ?g1 {}))"
    by (rule card_mono[rotated])
  then show "\<exists>cx gx cy gy.
      searchNumberOfReachableDestinationsInXStopsFromAirport g (Some a) x ext = Inr (cx, gx) \<and>
      searchNumberOfReachableDestinationsInXStopsFromAirport g (Some a) y ext = Inr (cy, gy) \<and>
      cx \<le> cy"
    by (simp add: reachable_Inr[OF a])
next
  let ?g1 = "markVisited (resetVisited g) a"
  let ?ext = "\<lambda>v. code (info v)"
  assume h: "dest ` set (adj (g ! a)) = {b, c} \<and> b < length g \<and> c < length g \<and>
          code (info (g ! b)) \<noteq> code (info (g ! c))"
  obtain q' g' where e: "enqueueUnvisited (\<lambda>d. (d, (0::int) + 1)) (adj (?g1 ! a)) ([], ?g1) = (q', g')"
    by fastforce
  have q': "\<forall>(v, stop) \<in> set q'. (0::int) < stop"
    using enqueueUnvisited_queue[OF e] by fastforce
  have "(\<lambda>e. ?ext (?g1 ! dest e)) ` set (adj (?g1 ! a)) = (\<lambda>d. code (info (g ! d))) ` {b, c}"
  proof -
    have "(\<lambda>e. ?ext (?g1 ! dest e)) ` set (adj (?g1 ! a)) =
          (\<lambda>d. code (info (?g1 ! d))) ` (dest ` set (adj (g ! a)))"
      using a by (simp add: image_image)
    also have "\<dots> = (\<lambda>d. code (info (?g1 ! d))) ` {b, c}" using h by simp
    also have "\<dots> = (\<lambda>d. code (info (g ! d))) ` {b, c}" using h by simp
    finally show ?thesis .
  qed
  then have "insertDestinations ?ext ?g1 (adj (?g1 ! a)) {} = {code (info (g ! b)), code (info (g ! c))}"
    by (simp add: insertDestinations_eq)
  then have "fst (reachableLoop 0 ?ext [(a, 0)] ?g1 {}) = {code (info (g ! b)), code (info (g ! c))}"
    using e reachableLoop_beyond[OF q'] by (simp add: Let_def)
  with h have "card (fst (reachableLoop 0 ?ext [(a, 0)] ?g1 {})) = 2" by simp
  then show "\<exists>g'. searchNumberOfReachableAirportsInXStopsFromAirport g (Some a) 0 = Inr (2, g')"
    by (simp add: searchNumberOfReachableAirportsInXStopsFromAirport_def reachable_Inr[OF a])
qed

theorem reachableCount_monotone_witness:
  "(\<exists>cx gx cy gy.
      searchNumberOfReachableDestinationsInXStopsFromAirport exABC (Some 0) 0 (\<lambda>v. city (info v))
        = Inr (cx, gx) \<and>
      searchNumberOfReachableDestinationsInXStopsFromAirport exABC (Some 0) 1 (\<lambda>v. city (info v))
        = Inr (cy, gy) \<and> cx \<le> cy) \<and>
   (\<exists>g'. searchNumberOfReachableAirportsInXStopsFromAirport exABC (Some 0) 0 = Inr (2, g'))"
  using reachableCount_monotone[of 0 exABC 0 1 "\<lambda>v. city (info v)" 1 2]
  by (simp add: exABC_def mkVertex_def newEdge_def tempAirport_def)

section \<open>Shortest paths from an airport to itself\<close>

text \<open>
  C7 (as stated).  The source is never its own neighbour unless an edge leads back to
  it, and the start path \<open>[A]\<close> is never collected: without routes the result is empty,
  and with the routes A \<rightarrow> B \<rightarrow> A it is the round trip \<open>[A, B, A]\<close>.
\<close>

theorem sameAirport_counterexample:
  "(\<exists>g'. searchSmallestPathBetweenAirports exAB (Some 0) (Some 0) = Inr ([], g')) \<and>
   (\<exists>g'. searchSmallestPathBetweenAirports exLoop (Some 0) (Some 0) = Inr ([[0, 1, 0]], g'))"
  by (simp add: searchSmallestPathBetweenAirports_def exAB_def exLoop_def mkVertex_def newEdge_def
      resetVisited_def markVisited_def setVisited_def isUnvisited_def INT_MAX_def Let_def)

text \<open>
  C7 (amended).  For a vertex \<open>a\<close> of the store, the query from \<open>a\<close> to \<open>a\<close> never returns the
  one-node path: every returned path starts and ends at \<open>a\<close> and has at least two nodes
  (a round trip), and the result is empty when no edge leads into \<open>a\<close>.
\<close>

theorem sameAirport_paths:
  assumes "a < length g"
  shows "\<exists>ps g'. searchSmallestPathBetweenAirports g (Some a) (Some a) = Inr (ps, g') \<and>
           [a] \<notin> set ps \<and>
           (\<forall>p \<in> set ps. hd p = a \<and> last p = a \<and> 2 \<le> length p) \<and>
           ((\<forall>v < length g. a \<notin> set (succs g v)) \<longrightarrow> ps = [])"
proof -
  let ?r = "pathLoop (Some a) [([a], a)] (markVisited (resetVisited g) a) [] INT_MAX"
  have r: "searchSmallestPathBetweenAirports g (Some a) (Some a) = Inr (fst ?r, snd ?r)"
    using assms by (simp add: searchSmallestPathBetweenAirports_def)
  from searchSmallestPath_shape[OF assms, of a] r
  have shape: "\<forall>p \<in> set (fst ?r). hd p = a \<and> last p = a \<and> 2 \<le> length p"
    by auto
  then have "[a] \<notin> set (fst ?r)" by fastforce
  moreover have "(\<forall>v < length g. a \<notin> set (succs g v)) \<longrightarrow> fst ?r = []"
  proof
    assume "\<forall>v < length g. a \<notin> set (succs g v)"
    then show "fst ?r = []"
      using assms by (intro pathLoop_noTarget[of g]) simp_all
  qed
  ultimately show ?thesis using r shape by blast
qed

theorem sameAirport_paths_witness:
  "\<exists>ps g'. searchSmallestPathBetweenAirports exLoop (Some 0) (Some 0) = Inr (ps, g') \<and>
           [0] \<notin> set ps \<and>
           (\<forall>p \<in> set ps. hd p = 0 \<and> last p = 0 \<and> 2 \<le> length p) \<and>
           ((\<forall>v < length exLoop. 0 \<notin> set (succs exLoop v)) \<longrightarrow> ps = [])"
  using sameAirport_paths[of 0 exLoop] by (simp add: exLoop_def)

section \<open>Absent start node\<close>

text \<open>
  C8 (as stated).  The queries of \<open>Consult\<close> take a vertex pointer and use it without a
  check: for a null start node they do not return an empty result but dereference it.
\<close>

theorem absentStart_counterexample:
  "searchNumberOfReachableDestinationsInXStopsFromAirport exAB None 0 (\<lambda>v. code (info v))
     = Inl NullPointer \<and>
   searchSmallestPathBetweenAirports exAB None (Some 1) = Inl NullPointer"
  by (simp add: searchNumberOfReachableDestinationsInXStopsFromAirport_def
      searchSmallestPathBetweenAirports_def)

text \<open>
  C8 (amended).  \<open>Graph::dfs(source)\<close> and \<open>Graph::bfs(source)\<close> look the start node up by
  its payload and return an empty sequence, leaving the store as it is, when it is absent.
  The queries of \<open>Consult\<close> are given a vertex pointer by the caller; for a vertex of the
  store they return a result and no error.
\<close>

theorem absentStart_empty:
  "(findVertex g src = None \<longrightarrow> dfs g src = ([], g) \<and> bfs g src = ([], g)) \<and>
   (a < length g \<longrightarrow>
      (\<exists>n g'. searchNumberOfReachableDestinationsInXStopsFromAirport g (Some a) k ext = Inr (n, g')) \<and>
      (\<exists>ps g'. searchSmallestPathBetweenAirports g (Some a) t = Inr (ps, g')))"
  by (auto simp: dfs_def bfs_def searchNumberOfReachableDestinationsInXStopsFromAirport_def
      searchSmallestPathBetweenAirports_def split: prod.splits)

theorem absentStart_empty_witness:
  "dfs exAB (tempAirport ''ZZZ'') = ([], exAB) \<and> bfs exAB (tempAirport ''ZZZ'') = ([], exAB) \<and>
   (\<exists>n g'. searchNumberOfReachableDestinationsInXStopsFromAirport exAB (Some 0) 1
              (\<lambda>v. country (info v)) = Inr (n, g')) \<and>
   (\<exists>ps g'. searchSmallestPathBetweenAirports exAB (Some 0) (Some 1) = Inr (ps, g'))"
proof -
  have h: "findVertex exAB (tempAirport ''ZZZ'') = None" "(0::nat) < length exAB"
    by (simp_all add: findVertex_def airportEq_def exAB_def mkVertex_def tempAirport_def)
  from absentStart_empty[of exAB "tempAirport ''ZZZ''" 0 1 "\<lambda>v. country (info v)" "Some 1"] h
  show ?thesis by simp
qed

section \<open>Queries leave the store alone\<close>





section \<open>Essential airports of a directed cycle\<close>

text \<open>
  C6.  When the store is a single directed cycle through all of its (at least three)
  vertices, \<open>searchEssentialAirports\<close> returns the empty set: along the cycle every
  low-link drops to 0, so no vertex after the root satisfies \<open>low(child) \<ge> num\<close>, and the
  root has one child only.
\<close>

theorem cycle_no_essential:
  assumes "directedCycle g ord"
  shows "fst (searchEssentialAirports g) = {}"
proof -
  from cycle_rotate[OF assms] obtain ord' where cyc: "directedCycle g ord'" and o0: "ord' ! 0 = 0"
    by blast
  let ?n = "length g"
  from cyc have "3 \<le> ?n" by (simp add: directedCycle_def)
  then have n0: "0 < ?n" by linarith
  from cycle_root[OF cyc o0] obtain g' where
    root: "dfsEssentialAirports 0 (resetVisited g, [], {}, 0) = (g', [], {}, int ?n)"
    and vis: "\<forall>v < ?n. visited (g' ! v)"
    by blast
  have un0: "isUnvisited (resetVisited g) 0"
    using n0 by (simp add: isUnvisited_def resetVisited_def setVisited_def)
  have "[0..<?n] = 0 # [Suc 0..<?n]" using n0 by (simp add: upt_conv_Cons)
  then have "essentialRoots [0..<?n] (resetVisited g, [], {}, 0) =
             essentialRoots [Suc 0..<?n] (g', [], {}, int ?n)"
    using un0 root by (simp del: dfsEssentialAirports.simps)
  also have "\<dots> = (g', [], {}, int ?n)"
    using vis by (intro essentialRoots_visited) (simp add: isUnvisited_def)
  finally show ?thesis by (simp add: searchEssentialAirports_def)
qed


theorem cycle_no_essential_witness:
  "directedCycle exTriangle [1, 0, 2] \<and> fst (searchEssentialAirports exTriangle) = {}"
  using cycle_no_essential[OF exTriangle_cycle] exTriangle_cycle by simp

section \<open>Candidates of the custom-layover queries\<close>

text \<open>
  C5 (as stated).  A composition whose segments do not align is not dropped: for the
  segments 0 \<rightarrow> 1 and 2 \<rightarrow> 3 the cross product stores one candidate, the empty vector that
  \<open>mergeVectors\<close> returns, and the evaluation loop then takes it up (\<open>v.end() - 1\<close> of an
  empty vector is out of range).
\<close>

theorem misaligned_not_dropped:
  "crossMerge [[0::nat, 1]] [[2, 3]] = [[]] \<and>
   evaluatePaths exABC (crossMerge [[0, 1]] [[2, 3]]) (int INT_MAX, []) = Inl OutOfRange"
  by (simp add: crossMerge_def mergeVectors_def Let_def INT_MAX_def)

text \<open>
  C5 (amended).  The composition step stores one candidate for every pair of segments and
  drops none: the concatenation at the shared endpoint when the pair aligns, the empty
  vector when it does not (or when a segment is empty).  In the custom-layover queries,
  for source, layover and destination airports of the store and at least one layover, no
  misalignment arises, because every segment comes from the shortest-path search of its
  leg and so starts at its stop and ends at the next one: the candidate paths built for a
  (source, destination) pair, and the paths that
  \<open>getBestPathsAllAirlinesWithCustomLayovers\<close> returns, are all non-empty concatenations
  of aligned segments, one per leg source \<rightarrow> layovers \<rightarrow> destination.
\<close>

theorem customLayovers_candidates:
  assumes "customLayovers \<noteq> []" "set customLayovers \<subseteq> {..<length g}"
    and "set source \<subseteq> {..<length g}" "set destination \<subseteq> {..<length g}"
  shows "length (crossMerge temp pathsFromTo) = length temp * length pathsFromTo \<and>
         (\<forall>a \<in> set temp. \<forall>b \<in> set pathsFromTo.
            (if a \<noteq> [] \<and> b \<noteq> [] \<and> last a = hd b then a @ tl b else [])
              \<in> set (crossMerge temp pathsFromTo)) \<and>
         (\<forall>s \<in> set source. \<forall>t \<in> set destination.
            \<exists>paths g'. customLayoverPaths g customLayovers s t = Inr (paths, g') \<and>
              (\<forall>p \<in> set paths. chained (s # customLayovers @ [t]) p)) \<and>
         (\<exists>totalPaths g'.
            getBestPathsAllAirlinesWithCustomLayovers g customLayovers source destination
              = Inr (totalPaths, g') \<and>
            (\<forall>x \<in> set totalPaths. \<exists>s \<in> set source. \<exists>t \<in> set destination.
               chained (s # customLayovers @ [t]) (fst (snd x))))"
proof -
  have 1: "length (crossMerge temp pathsFromTo) = length temp * length pathsFromTo"
    by (rule length_crossMerge)
  have 2: "\<forall>a \<in> set temp. \<forall>b \<in> set pathsFromTo.
            (if a \<noteq> [] \<and> b \<noteq> [] \<and> last a = hd b then a @ tl b else [])
              \<in> set (crossMerge temp pathsFromTo)"
    by (intro ballI) (rule crossMerge_pair)
  have 3: "\<forall>s \<in> set source. \<forall>t \<in> set destination.
            \<exists>paths g'. customLayoverPaths g customLayovers s t = Inr (paths, g') \<and>
              (\<forall>p \<in> set paths. chained (s # customLayovers @ [t]) p)"
  proof (intro ballI)
    fix s t assume "s \<in> set source" "t \<in> set destination"
    with assms(3,4) have "s < length g" "t < length g" by auto
    from customLayoverPaths_ok[OF assms(1,2) this] show
      "\<exists>paths g'. customLayoverPaths g customLayovers s t = Inr (paths, g') \<and>
              (\<forall>p \<in> set paths. chained (s # customLayovers @ [t]) p)"
      by blast
  qed
  let ?P = "\<lambda>p. \<exists>s \<in> set source. \<exists>t \<in> set destination. chained (s # customLayovers @ [t]) p"
  have "\<forall>s \<in> set source. \<forall>t \<in> set destination. \<forall>p. chained (s # customLayovers @ [t]) p \<longrightarrow> ?P p"
    by blast
  from bestForSources_ok[OF assms(1,2,4,3) refl this, of "[]" "int INT_MAX"]
  obtain g' m' tp' where
    "bestForSources customLayovers source destination (g, int INT_MAX, []) = Inr (g', m', tp')"
    "\<forall>x \<in> set tp'. ?P (fst (snd x))"
    by auto
  then have 4: "\<exists>totalPaths g'.
            getBestPathsAllAirlinesWithCustomLayovers g customLayovers source destination
              = Inr (totalPaths, g') \<and>
            (\<forall>x \<in> set totalPaths. \<exists>s \<in> set source. \<exists>t \<in> set destination.
               chained (s # customLayovers @ [t]) (fst (snd x)))"
    by (auto simp: getBestPathsAllAirlinesWithCustomLayovers_def)
  from 1 2 3 4 show ?thesis by (intro conjI)
qed

theorem customLayovers_candidates_witness:
  "length (crossMerge [[0::nat, 1]] [[1, 2], [2, 3]]) = 2 \<and>
   [0, 1, 2] \<in> set (crossMerge [[0::nat, 1]] [[1, 2], [2, 3]]) \<and>
   [] \<in> set (crossMerge [[0::nat, 1]] [[1, 2], [2, 3]]) \<and>
   (\<exists>paths g'. customLayoverPaths exABC [1] 0 2 = Inr (paths, g') \<and>
      (\<forall>p \<in> set paths. chained [0, 1, 2] p)) \<and>
   (\<exists>totalPaths g'.
      getBestPathsAllAirlinesWithCustomLayovers exABC [1] [0] [2] = Inr (totalPaths, g') \<and>
      (\<forall>x \<in> set totalPaths. chained [0, 1, 2] (fst (snd x))))"
proof -
  have h: "[1::nat] \<noteq> []" "set [1::nat] \<subseteq> {..<length exABC}" "set [0::nat] \<subseteq> {..<length exABC}"
    "set [2::nat] \<subseteq> {..<length exABC}"
    by (simp_all add: exABC_def)
  from customLayovers_candidates[OF h, where temp = "[[0::nat, 1]]"
      and pathsFromTo = "[[1, 2], [2, 3]]"]
  show ?thesis by simp
qed

section \<open>Length of the shortest paths\<close>




end
